theory Spec2Isabelle
  imports Complex_Main "HOL-Library.Log_Nat"
begin

unbundle bit_operations_syntax

section \<open>JavaScript numbers\<close>

text \<open>
  CalendarDate computes with JavaScript numbers (IEEE 754 binary64). A finite double is
  modelled by the rational it denotes, and \<open>NaN\<close> is a value of its own. Every arithmetic
  operation rounds its exact result to the nearest double, ties to even (\<open>round64\<close>).
  Negative zero is identified with zero (the program never divides by a variable), and the
  exponent range is not bounded: no operation of the program overflows or underflows on
  numbers below \<open>2^1023\<close> in magnitude, and the infinities are not represented.
\<close>

datatype number = NaN | Fin rat

definition I :: "int \<Rightarrow> number" where
  "I n = Fin (of_int n)"

definition round_half_even :: "rat \<Rightarrow> int" where
  "round_half_even x =
     (let f = \<lfloor>x\<rfloor>; r = x - of_int f
      in if r < 1 / 2 then f else if 1 / 2 < r then f + 1
         else if even f then f else f + 1)"

definition floor_log2 :: "rat \<Rightarrow> int" where
  \<comment> \<open>the exponent \<open>e\<close> with \<open>2^e \<le> q < 2^(e+1)\<close>, for \<open>q > 0\<close>\<close>
  "floor_log2 q =
     (let n = fst (quotient_of q); d = snd (quotient_of q); k = bitlen n - bitlen d
      in if 2 powi k \<le> q then k else k - 1)"

definition round64 :: "rat \<Rightarrow> rat" where
  \<comment> \<open>round to 53 significant bits, nearest, ties to even\<close>
  "round64 q =
     (if q = 0 then 0
      else let u = 2 powi (floor_log2 \<bar>q\<bar> - 52)
           in of_int (round_half_even (q / u)) * u)"

fun num_add :: "number \<Rightarrow> number \<Rightarrow> number" where
  "num_add (Fin a) (Fin b) = Fin (round64 (a + b))"
| "num_add _ _ = NaN"

fun num_sub :: "number \<Rightarrow> number \<Rightarrow> number" where
  "num_sub (Fin a) (Fin b) = Fin (round64 (a - b))"
| "num_sub _ _ = NaN"

fun num_mul :: "number \<Rightarrow> number \<Rightarrow> number" where
  "num_mul (Fin a) (Fin b) = Fin (round64 (a * b))"
| "num_mul _ _ = NaN"

fun num_div :: "number \<Rightarrow> number \<Rightarrow> number" where
  \<comment> \<open>the program only divides by non-zero constants\<close>
  "num_div (Fin a) (Fin b) = (if b = 0 then NaN else Fin (round64 (a / b)))"
| "num_div _ _ = NaN"

definition trunc :: "rat \<Rightarrow> int" where
  \<comment> \<open>rounding towards zero\<close>
  "trunc q = (if 0 \<le> q then \<lfloor>q\<rfloor> else - \<lfloor>- q\<rfloor>)"

fun num_rem :: "number \<Rightarrow> number \<Rightarrow> number" where
  \<comment> \<open>\<open>a % b\<close>: the remainder has the sign of the dividend and is exact\<close>
  "num_rem (Fin a) (Fin b) = (if b = 0 then NaN else Fin (a - b * of_int (trunc (a / b))))"
| "num_rem _ _ = NaN"

fun num_lt :: "number \<Rightarrow> number \<Rightarrow> bool" where
  "num_lt (Fin a) (Fin b) = (a < b)"
| "num_lt _ _ = False"

fun num_le :: "number \<Rightarrow> number \<Rightarrow> bool" where
  "num_le (Fin a) (Fin b) = (a \<le> b)"
| "num_le _ _ = False"

fun num_eq :: "number \<Rightarrow> number \<Rightarrow> bool" where
  \<comment> \<open>\<open>===\<close> on numbers: NaN equals nothing\<close>
  "num_eq (Fin a) (Fin b) = (a = b)"
| "num_eq _ _ = False"

fun isNaN :: "number \<Rightarrow> bool" where
  "isNaN NaN = True"
| "isNaN (Fin _) = False"

fun isInteger :: "number \<Rightarrow> bool" where
  "isInteger NaN = False"
| "isInteger (Fin q) = (q = of_int \<lfloor>q\<rfloor>)"

definition wrap32 :: "int \<Rightarrow> int" where
  "wrap32 n = (n + 2 ^ 31) mod 2 ^ 32 - 2 ^ 31"

fun ToInt32 :: "number \<Rightarrow> int" where
  \<comment> \<open>the conversion behind \<open>x | 0\<close>, \<open>x & y\<close> and \<open>x >> y\<close>\<close>
  "ToInt32 NaN = 0"
| "ToInt32 (Fin q) = wrap32 (trunc q)"

fun the_int :: "number \<Rightarrow> int" where
  "the_int NaN = 0"
| "the_int (Fin q) = \<lfloor>q\<rfloor>"

fun Math_max :: "number \<Rightarrow> number \<Rightarrow> number" where
  "Math_max (Fin a) (Fin b) = Fin (max a b)"
| "Math_max _ _ = NaN"

section \<open>JavaScript strings and arrays\<close>

text \<open>
  A string is the list of its UTF-16 code units. \<open>str\<close> embeds an ASCII literal.
\<close>

type_synonym code_unit = nat
type_synonym jsstring = "code_unit list"

definition str :: "string \<Rightarrow> jsstring" where
  "str s = map of_char s"

definition repeat :: "jsstring \<Rightarrow> int \<Rightarrow> jsstring" where
  "repeat s n = concat (replicate (nat n) s)"

definition charCodeAt :: "jsstring \<Rightarrow> number \<Rightarrow> number" where
  \<comment> \<open>the position is truncated (NaN counts as 0); outside the string the result is NaN\<close>
  "charCodeAt s pos =
     (let p = (case pos of NaN \<Rightarrow> 0 | Fin q \<Rightarrow> trunc q)
      in if p < 0 \<or> int (length s) \<le> p then NaN else I (int (s ! nat p)))"

definition array_get :: "number list \<Rightarrow> number \<Rightarrow> number" where
  \<comment> \<open>\<open>xs[k]\<close> read as a number: a key that is no index of the array gives
      \<open>undefined\<close>, which arithmetic converts to NaN\<close>
  "array_get xs k =
     (case k of
        NaN \<Rightarrow> NaN
      | Fin q \<Rightarrow>
          if q = of_int \<lfloor>q\<rfloor> \<and> 0 \<le> q \<and> \<lfloor>q\<rfloor> < int (length xs)
          then xs ! nat \<lfloor>q\<rfloor> else NaN)"

definition substring :: "jsstring \<Rightarrow> nat \<Rightarrow> nat \<Rightarrow> jsstring" where
  \<comment> \<open>both positions are clamped to the length, and swapped when out of order\<close>
  "substring s start end =
     (let a = min start (length s); b = min end (length s)
      in take (max a b - min a b) (drop (min a b) s))"

definition charAt :: "jsstring \<Rightarrow> nat \<Rightarrow> jsstring" where
  "charAt s i = (if i < length s then [s ! i] else [])"

definition padStart :: "jsstring \<Rightarrow> nat \<Rightarrow> jsstring \<Rightarrow> jsstring" where
  "padStart s targetLength fillString =
     (if targetLength \<le> length s \<or> fillString = [] then s
      else take (targetLength - length s)
             (concat (replicate (targetLength - length s) fillString)) @ s)"

definition isStrWhiteSpaceChar :: "code_unit \<Rightarrow> bool" where
  \<comment> \<open>WhiteSpace and LineTerminator of ECMAScript\<close>
  "isStrWhiteSpaceChar c \<longleftrightarrow>
     c \<in> {0x09, 0x0A, 0x0B, 0x0C, 0x0D, 0x20, 0xA0, 0x1680, 0x2028, 0x2029, 0x202F, 0x205F,
           0x3000, 0xFEFF} \<or> (0x2000 \<le> c \<and> c \<le> 0x200A)"

definition isDigit :: "code_unit \<Rightarrow> bool" where
  "isDigit c \<longleftrightarrow> 48 \<le> c \<and> c \<le> 57"

definition digitValue :: "code_unit \<Rightarrow> nat option" where
  \<comment> \<open>the value of a digit or letter as a digit of a radix up to 16\<close>
  "digitValue c =
     (if 48 \<le> c \<and> c \<le> 57 then Some (c - 48)
      else if 97 \<le> c \<and> c \<le> 102 then Some (c - 87)
      else if 65 \<le> c \<and> c \<le> 70 then Some (c - 55)
      else None)"

definition isRadixDigit :: "nat \<Rightarrow> code_unit \<Rightarrow> bool" where
  "isRadixDigit radix c = (case digitValue c of None \<Rightarrow> False | Some v \<Rightarrow> v < radix)"

definition radixValue :: "nat \<Rightarrow> jsstring \<Rightarrow> nat" where
  "radixValue radix ds = foldl (\<lambda>a c. radix * a + the (digitValue c)) 0 ds"

definition signOf :: "jsstring \<Rightarrow> int \<times> jsstring" where
  \<comment> \<open>an optional leading \<open>+\<close> or \<open>-\<close>\<close>
  "signOf s =
     (case s of
        [] \<Rightarrow> (1, [])
      | c # r \<Rightarrow> if c = 45 then (- 1, r) else if c = 43 then (1, r) else (1, s))"

definition StrDecimalLiteral :: "jsstring \<Rightarrow> number" where
  \<comment> \<open>sign, digits, optional fraction, optional exponent; the literal \<open>Infinity\<close> has
      eight code units and is not recognised here, as no field of a date string has more
      than four\<close>
  "StrDecimalLiteral s =
     (let (sgn, r0) = signOf s;
          ip = takeWhile isDigit r0;
          r1 = dropWhile isDigit r0;
          fp = (case r1 of [] \<Rightarrow> [] | c # r \<Rightarrow> if c = 46 then takeWhile isDigit r else []);
          r2 = (case r1 of [] \<Rightarrow> [] | c # r \<Rightarrow> if c = 46 then dropWhile isDigit r else r1)
      in if ip = [] \<and> fp = [] then NaN
         else
           (case r2 of
              [] \<Rightarrow> Fin (round64 (of_int (sgn * int (radixValue 10 (ip @ fp)))
                                    * 10 powi (- int (length fp))))
            | c # r \<Rightarrow>
                if c = 101 \<or> c = 69 then
                  (let (esgn, ds) = signOf r
                   in if ds \<noteq> [] \<and> list_all isDigit ds
                      then Fin (round64 (of_int (sgn * int (radixValue 10 (ip @ fp)))
                                  * 10 powi (esgn * int (radixValue 10 ds) - int (length fp))))
                      else NaN)
                else NaN))"

definition NonDecimalIntegerLiteral :: "jsstring \<Rightarrow> number option" where
  \<comment> \<open>\<open>0x\<close>, \<open>0o\<close> and \<open>0b\<close> literals; \<open>None\<close> when the string has no such prefix\<close>
  "NonDecimalIntegerLiteral s =
     (case s of
        z # x # ds \<Rightarrow>
          if z = 48 \<and> (x = 120 \<or> x = 88 \<or> x = 111 \<or> x = 79 \<or> x = 98 \<or> x = 66) then
            (let radix = (if x = 120 \<or> x = 88 then 16 else if x = 111 \<or> x = 79 then 8 else 2)
             in Some (if ds \<noteq> [] \<and> list_all (isRadixDigit radix) ds
                      then Fin (round64 (of_nat (radixValue radix ds))) else NaN))
          else None
      | _ \<Rightarrow> None)"

definition StringToNumber :: "jsstring \<Rightarrow> number" where
  \<comment> \<open>\<open>Number(s)\<close> on a string: white space is trimmed, the empty string is 0\<close>
  "StringToNumber s =
     (let t = rev (dropWhile isStrWhiteSpaceChar (rev (dropWhile isStrWhiteSpaceChar s)))
      in if t = [] then I 0
         else (case NonDecimalIntegerLiteral t of
                 Some n \<Rightarrow> n
               | None \<Rightarrow> StrDecimalLiteral t))"

definition parseInt10 :: "jsstring \<Rightarrow> number" where
  \<comment> \<open>\<open>parseInt(s, 10)\<close>: leading white space, a sign, then the longest run of digits\<close>
  "parseInt10 s =
     (let (sgn, r) = signOf (dropWhile isStrWhiteSpaceChar s);
          z = takeWhile isDigit r
      in if z = [] then NaN else Fin (round64 (of_int (sgn * int (radixValue 10 z)))))"

fun digits_of :: "nat \<Rightarrow> jsstring" where
  "digits_of n = (if n < 10 then [48 + n] else digits_of (n div 10) @ [48 + n mod 10])"

declare digits_of.simps [simp del]

definition NumberToString :: "number \<Rightarrow> jsstring" where
  \<comment> \<open>\<open>String(x)\<close> and the conversion in \<open>s + x\<close>. The program converts NaN and integers only
      (a year after \<open>| 0\<close>, a table code minus 64, sums and differences of integers, the result
      of \<open>parseInt\<close>); the decimal form below is right for integers under \<open>10^21\<close> in
      magnitude, and the conversion of the other numbers is left unspecified\<close>
  "NumberToString x =
     (case x of
        NaN \<Rightarrow> str ''NaN''
      | Fin q \<Rightarrow>
          if q = of_int \<lfloor>q\<rfloor> \<and> \<bar>q\<bar> < 10 ^ 21
          then (if q < 0 then 45 # digits_of (nat (- \<lfloor>q\<rfloor>)) else digits_of (nat \<lfloor>q\<rfloor>))
          else undefined)"

section \<open>CalendarDate.ts\<close>

datatype error =
    DayOutOfRange      \<comment> \<open>"Day out of range."\<close>
  | ValueOutOfRange    \<comment> \<open>"Date value (...) out of range."\<close>
  | NonIntegerValue    \<comment> \<open>"Non-integer date value."\<close>
  | ParseFormat        \<comment> \<open>"Date string not in YYYY-MM-DD or YYYYMMDD format"\<close>

definition MONTH_SUMS_NORMAL_YEAR :: "number list" where
  "MONTH_SUMS_NORMAL_YEAR =
     [NaN, I 0, I 31, I 59, I 90, I 120, I 151, I 181, I 212, I 243, I 273, I 304, I 334]"

definition optimizedDaysInMonth :: "number \<Rightarrow> number" where
  "optimizedDaysInMonth month =
     (if ToInt32 month AND 1 = drop_bit 3 (ToInt32 month) then I 30 else I 31)"

definition MONTHS_CHAR_OFFSET :: number where
  "MONTHS_CHAR_OFFSET = num_sub (charCodeAt (str ''A'') (I 0)) (I 1)"

definition pre :: jsstring where
  "pre = repeat (str ''A'') 31 @ repeat (str ''B'') 28"

definition end_months :: jsstring where
  \<comment> \<open>the constant \<open>end\<close> of the source\<close>
  "end_months =
     concat (map (\<lambda>(x, i). repeat [x] (the_int (optimizedDaysInMonth (I (int i + 3)))))
               (zip (str ''CDEFGHIJKL'') [0..<10]))"

definition NORMAL_YEAR :: jsstring where
  "NORMAL_YEAR = pre @ end_months"

definition LEAP_YEAR :: jsstring where
  "LEAP_YEAR = pre @ str ''B'' @ end_months"

definition isLeapYear :: "number \<Rightarrow> bool" where
  "isLeapYear year \<longleftrightarrow>
     num_eq (num_rem year (I 4)) (I 0) \<and>
     (\<not> num_eq (num_rem year (I 100)) (I 0) \<or> num_eq (num_rem year (I 400)) (I 0))"

definition daysInMonth :: "number \<Rightarrow> number \<Rightarrow> number" where
  "daysInMonth year month =
     (if num_eq month (I 2) then (if isLeapYear year then I 29 else I 28)
      else optimizedDaysInMonth month)"

definition yearStart :: "number \<Rightarrow> number" where
  \<comment> \<open>\<open>(year * 365) + ((year + 3) / 4 | 0) - ((year + 99) / 100 | 0) + ((year + 399) / 400 | 0)\<close>,
      the expression shared by \<open>tripletToDaysValue\<close> and the \<open>month\<close> accessor\<close>
  "yearStart year =
     num_add
       (num_sub
          (num_add (num_mul year (I 365)) (I (ToInt32 (num_div (num_add year (I 3)) (I 4)))))
          (I (ToInt32 (num_div (num_add year (I 99)) (I 100)))))
       (I (ToInt32 (num_div (num_add year (I 399)) (I 400))))"

definition tripletToDaysValue :: "number \<Rightarrow> number \<Rightarrow> number \<Rightarrow> error + number" where
  "tripletToDaysValue year month day =
     (if num_le day (I 0) \<or> num_lt (daysInMonth year month) day then Inl DayOutOfRange
      else
        let daysValue =
              num_sub
                (num_add (num_add (yearStart year) (array_get MONTH_SUMS_NORMAL_YEAR month)) day)
                (I 1)
        in Inr (if isLeapYear year \<and> num_lt (I 2) month then num_add daysValue (I 1)
                else daysValue))"

datatype CalendarDate = CalendarDate (valueOf: int)

definition new_CalendarDate :: "number \<Rightarrow> error + CalendarDate" where
  \<comment> \<open>the constructor; an instance holds an integer, so the field is an \<open>int\<close>\<close>
  "new_CalendarDate daysValue =
     (if num_lt daysValue (I 366) \<or> num_lt (I 3652424) daysValue then Inl ValueOutOfRange
      else if \<not> isInteger daysValue then Inl NonIntegerValue
      else Inr (CalendarDate (the_int daysValue)))"

definition create :: "number \<Rightarrow> number \<Rightarrow> number \<Rightarrow> error + CalendarDate" where
  "create year month day =
     (case tripletToDaysValue year month day of
        Inl e \<Rightarrow> Inl e
      | Inr v \<Rightarrow> new_CalendarDate v)"

definition year :: "CalendarDate \<Rightarrow> int" where
  "year this =
     (let centuries = ToInt32 (num_div (I (valueOf this)) (I 36525))
      in ToInt32
           (num_div
              (num_sub (num_add (I (valueOf this)) (I centuries))
                       (I (ToInt32 (num_div (I centuries) (I 4)))))
              (Fin (36525 / 100))))"

definition month :: "CalendarDate \<Rightarrow> number" where
  "month this =
     (let year = I (year this);
          d = yearStart year
      in if isLeapYear year
         then num_sub (charCodeAt LEAP_YEAR (num_sub (I (valueOf this)) d)) MONTHS_CHAR_OFFSET
         else num_sub (charCodeAt NORMAL_YEAR (num_sub (I (valueOf this)) d)) MONTHS_CHAR_OFFSET)"

definition day :: "CalendarDate \<Rightarrow> error + number" where
  "day this =
     (case tripletToDaysValue (I (year this)) (month this) (I 1) of
        Inl e \<Rightarrow> Inl e
      | Inr v \<Rightarrow> Inr (num_add (num_sub (I (valueOf this)) v) (I 1)))"

definition dayOfWeek :: "CalendarDate \<Rightarrow> number" where
  "dayOfWeek this = num_rem (num_add (I (valueOf this)) (I 5)) (I 7)"

definition dayOfYear :: "CalendarDate \<Rightarrow> error + number" where
  "dayOfYear this =
     (case tripletToDaysValue (I (year this)) (I 1) (I 1) of
        Inl e \<Rightarrow> Inl e
      | Inr v \<Rightarrow> Inr (num_sub (I (valueOf this)) v))"

definition toEpochMs :: "CalendarDate \<Rightarrow> number" where
  "toEpochMs this = num_mul (num_sub (I (valueOf this)) (I 719528)) (I 86400000)"

definition toEpochSeconds :: "CalendarDate \<Rightarrow> number" where
  \<comment> \<open>only in the second source file\<close>
  "toEpochSeconds this = num_mul (num_sub (I (valueOf this)) (I 719528)) (I 86400)"

definition addYears :: "CalendarDate \<Rightarrow> number \<Rightarrow> error + CalendarDate" where
  "addYears this delta =
     (let newYear = num_add (I (year this)) delta
      in if num_eq (month this) (I 2)
         then (case day this of
                 Inl e \<Rightarrow> Inl e
               | Inr d \<Rightarrow>
                   if num_eq d (I 29) \<and> \<not> isLeapYear newYear
                   then create newYear (num_add (month this) (I 1)) (I 1)
                   else create newYear (month this) d)
         else (case day this of
                 Inl e \<Rightarrow> Inl e
               | Inr d \<Rightarrow> create newYear (month this) d))"

definition addMonths :: "CalendarDate \<Rightarrow> number \<Rightarrow> error + CalendarDate" where
  "addMonths this delta =
     (let currentMonths = num_sub (num_add (num_mul (I (year this)) (I 12)) (month this)) (I 1);
          newYear = I (ToInt32 (num_div (num_add currentMonths delta) (I 12)));
          newMonth = num_add (num_rem (num_add currentMonths delta) (I 12)) (I 1);
          maxDay = daysInMonth newYear newMonth
      in case day this of
           Inl e \<Rightarrow> Inl e
         | Inr d \<Rightarrow>
             let overflow = Math_max (I 0) (num_sub d maxDay)
             in create newYear newMonth (num_sub d overflow))"

definition addDays :: "CalendarDate \<Rightarrow> number \<Rightarrow> error + CalendarDate" where
  "addDays this delta = new_CalendarDate (num_add (I (valueOf this)) delta)"

definition extractInt :: "jsstring \<Rightarrow> nat \<Rightarrow> nat \<Rightarrow> number" where
  "extractInt someString start len = StringToNumber (substring someString start (start + len))"

definition fromString :: "jsstring \<Rightarrow> error + CalendarDate" where
  "fromString s =
     (let year = extractInt s 0 4;
          (month, day) =
            (if length s = 10 \<and> charAt s 4 = str ''-'' \<and> charAt s 7 = str ''-''
             then (extractInt s 5 2, extractInt s 8 2)
             else if length s = 8 then (extractInt s 4 2, extractInt s 6 2)
             else (NaN, NaN))
      in if isNaN year \<or> isNaN month \<or> isNaN day then Inl ParseFormat
         else (case tripletToDaysValue year month day of
                 Inl e \<Rightarrow> Inl e
               | Inr v \<Rightarrow> new_CalendarDate v))"

definition toString :: "CalendarDate \<Rightarrow> error + jsstring" where
  "toString this =
     (let month = month this
      in case day this of
           Inl e \<Rightarrow> Inl e
         | Inr d \<Rightarrow>
             Inr (padStart (NumberToString (I (year this))) 4 (str ''0'')
                  @ (if num_lt month (I 10) then str ''-0'' else str ''-'') @ NumberToString month
                  @ (if num_lt d (I 10) then str ''-0'' else str ''-'') @ NumberToString d))"

section \<open>The second source file (src/unnamed/part_000)\<close>

text \<open>
  The second file is another variant of the same class. Its accessors and arithmetic are
  those above; \<open>tripletToDaysValue\<close> adds its terms in another order and \<open>fromString\<close>
  reads its fields with \<open>parseInt\<close> and checks the eight-character form by printing the
  parsed number again.
\<close>

definition tripletToDaysValue_v0 :: "number \<Rightarrow> number \<Rightarrow> number \<Rightarrow> error + number" where
  \<comment> \<open>the parameters \<open>y\<close>, \<open>m\<close>, \<open>d\<close> are the source's year, month and day\<close>
  "tripletToDaysValue_v0 y m d =
     (if num_le d (I 0) \<or> num_lt (daysInMonth y m) d then Inl DayOutOfRange
      else
        let daysValue = yearStart y;
            daysValue = num_add daysValue (array_get MONTH_SUMS_NORMAL_YEAR m);
            daysValue = (if isLeapYear y \<and> num_lt (I 2) m then num_add daysValue (I 1)
                         else daysValue)
        in Inr (num_add daysValue (num_sub d (I 1))))"

definition extractInt_v0 :: "jsstring \<Rightarrow> nat \<Rightarrow> nat option \<Rightarrow> number" where
  "extractInt_v0 someString start end =
     parseInt10 (substring someString start (case end of Some e \<Rightarrow> e | None \<Rightarrow> start + 2))"

definition fromString_v0 :: "jsstring \<Rightarrow> error + CalendarDate" where
  "fromString_v0 s =
     (let year = extractInt_v0 s 0 (Some 4);
          (month, day) =
            (if length s = 10 \<and> charAt s 4 = str ''-'' \<and> charAt s 7 = str ''-''
             then (extractInt_v0 s 5 None, extractInt_v0 s 8 None)
             else if length s = 8 \<and> padStart (NumberToString (parseInt10 s)) 8 (str ''0'') = s
             then (extractInt_v0 s 4 None, extractInt_v0 s 6 None)
             else (NaN, NaN))
      in if isNaN year \<or> isNaN month \<or> isNaN day then Inl ParseFormat
         else (case tripletToDaysValue_v0 year month day of
                 Inl e \<Rightarrow> Inl e
               | Inr v \<Rightarrow> new_CalendarDate v))"

section \<open>The calendar on integers\<close>

text \<open>
  The Gregorian rules as the specification words them, on mathematical integers. The
  theorems relate the program to these.
\<close>

definition leap :: "int \<Rightarrow> bool" where
  "leap y \<longleftrightarrow> y mod 4 = 0 \<and> (y mod 100 \<noteq> 0 \<or> y mod 400 = 0)"

definition month_length :: "int \<Rightarrow> int \<Rightarrow> int" where
  "month_length y m =
     (if m = 2 then (if leap y then 29 else 28)
      else if m = 4 \<or> m = 6 \<or> m = 9 \<or> m = 11 then 30 else 31)"

definition cumulativeDaysBeforeMonth :: "int \<Rightarrow> int" where
  "cumulativeDaysBeforeMonth m =
     [0, 31, 59, 90, 120, 151, 181, 212, 243, 273, 304, 334] ! nat (m - 1)"

definition jan1 :: "int \<Rightarrow> int" where
  "jan1 y = y * 365 + (y + 3) div 4 - (y + 99) div 100 + (y + 399) div 400"

definition ordinalOf :: "int \<Rightarrow> int \<Rightarrow> int \<Rightarrow> int" where
  "ordinalOf y m d =
     jan1 y + cumulativeDaysBeforeMonth m + (if leap y \<and> 2 < m then 1 else 0) + (d - 1)"

definition valid_triple :: "int \<Rightarrow> int \<Rightarrow> int \<Rightarrow> bool" where
  "valid_triple y m d \<longleftrightarrow> 1 \<le> m \<and> m \<le> 12 \<and> 1 \<le> d \<and> d \<le> month_length y m"

definition zero_pad :: "nat \<Rightarrow> int \<Rightarrow> jsstring" where
  \<comment> \<open>the decimal digits of a natural number, padded with zeros to a width\<close>
  "zero_pad k n = replicate (k - length (digits_of (nat n))) 48 @ digits_of (nat n)"

definition iso_format :: "int \<Rightarrow> int \<Rightarrow> int \<Rightarrow> jsstring" where
  \<comment> \<open>\<open>YYYY-MM-DD\<close>\<close>
  "iso_format y m d = zero_pad 4 y @ str ''-'' @ zero_pad 2 m @ str ''-'' @ zero_pad 2 d"

definition canonical_format :: "jsstring \<Rightarrow> bool" where
  \<comment> \<open>ten code units: four digits, a hyphen, two digits, a hyphen, two digits\<close>
  "canonical_format s \<longleftrightarrow>
     length s = 10 \<and> list_all isDigit (substring s 0 4) \<and> charAt s 4 = str ''-''
     \<and> list_all isDigit (substring s 5 7) \<and> charAt s 7 = str ''-''
     \<and> list_all isDigit (substring s 8 10)"

section \<open>Rounding\<close>

text \<open>
  \<open>round64\<close> is within half a unit in the last place of its argument and leaves the integers
  below \<open>2^53\<close> unchanged; so sums, differences and products of the integers the program meets
  are exact, and a quotient by a small constant, once truncated, is the integer quotient.
\<close>

lemma round_half_even_of_int: "round_half_even (of_int z) = z"
  by (simp add: round_half_even_def)

lemma round_half_even_err: "\<bar>of_int (round_half_even x) - x\<bar> \<le> 1 / 2"
proof -
  have "of_int \<lfloor>x\<rfloor> \<le> x" and "x < of_int \<lfloor>x\<rfloor> + 1" by linarith+
  then show ?thesis
    unfolding round_half_even_def Let_def by (simp add: abs_le_iff)
qed

lemma floor_log2_le:
  assumes "0 < q"
  shows "2 powi floor_log2 q \<le> q"
proof -
  obtain n d where nd: "quotient_of q = (n, d)" by (cases "quotient_of q")
  then have d: "0 < d" by (rule quotient_of_denom_pos)
  from nd have q: "q = of_int n / of_int d" by (rule quotient_of_div)
  with assms d have n: "0 < n" by (simp add: zero_less_divide_iff)
  define k where "k = bitlen n - bitlen d"
  have fl: "floor_log2 q = (if 2 powi k \<le> q then k else k - 1)"
    by (simp add: floor_log2_def nd k_def Let_def)
  show ?thesis
  proof (cases "2 powi k \<le> q")
    case True
    then show ?thesis by (simp add: fl)
  next
    case False
    have bn: "(2::int) ^ nat (bitlen n - 1) \<le> n" using bitlen_bounds [OF n] by simp
    have bd: "d < (2::int) ^ nat (bitlen d)" using bitlen_bounds [OF d] by simp
    have bn1: "1 \<le> bitlen n" using n bitlen_eq_zero_iff [of n] bitlen_nonneg [of n] by linarith
    have bd0: "0 \<le> bitlen d" by (rule bitlen_nonneg)
    have k1: "k - 1 = (bitlen n - 1) - bitlen d" by (simp add: k_def)
    have "(2::rat) powi (k - 1) = 2 powi (bitlen n - 1) / 2 powi (bitlen d)"
      unfolding k1 by (rule power_int_diff) simp
    also have "\<dots> = 2 ^ nat (bitlen n - 1) / 2 ^ nat (bitlen d)"
      using bn1 bd0 by (simp add: power_int_def)
    also have "\<dots> \<le> of_int n / of_int d"
    proof (rule frac_le)
      show "(2::rat) ^ nat (bitlen n - 1) \<le> of_int n"
        using bn by (metis of_int_le_iff of_int_numeral of_int_power)
      show "(of_int d :: rat) \<le> 2 ^ nat (bitlen d)"
        using bd by (metis less_imp_le of_int_le_iff of_int_numeral of_int_power)
      show "(0::rat) < of_int d" using d by simp
      show "(0::rat) \<le> of_int n" using n by simp
    qed
    finally have "2 powi (k - 1) \<le> q" unfolding q .
    moreover have "floor_log2 q = k - 1" using False by (simp add: fl)
    ultimately show ?thesis by simp
  qed
qed

lemma floor_log2_less:
  assumes "0 < q"
  shows "q < 2 powi (floor_log2 q + 1)"
proof -
  obtain n d where nd: "quotient_of q = (n, d)" by (cases "quotient_of q")
  then have d: "0 < d" by (rule quotient_of_denom_pos)
  from nd have q: "q = of_int n / of_int d" by (rule quotient_of_div)
  with assms d have n: "0 < n" by (simp add: zero_less_divide_iff)
  define k where "k = bitlen n - bitlen d"
  have fl: "floor_log2 q = (if 2 powi k \<le> q then k else k - 1)"
    by (simp add: floor_log2_def nd k_def Let_def)
  show ?thesis
  proof (cases "2 powi k \<le> q")
    case False
    then show ?thesis by (simp add: fl)
  next
    case True
    have bn: "n < (2::int) ^ nat (bitlen n)" using bitlen_bounds [OF n] by simp
    have bd: "(2::int) ^ nat (bitlen d - 1) \<le> d" using bitlen_bounds [OF d] by simp
    have bd1: "1 \<le> bitlen d" using d bitlen_eq_zero_iff [of d] bitlen_nonneg [of d] by linarith
    have bn0: "0 \<le> bitlen n" by (rule bitlen_nonneg)
    have "of_int n / of_int d < (2::rat) ^ nat (bitlen n) / 2 ^ nat (bitlen d - 1)"
    proof (rule frac_less)
      show "(of_int n :: rat) < 2 ^ nat (bitlen n)"
        using bn by (metis of_int_less_iff of_int_numeral of_int_power)
      show "(2::rat) ^ nat (bitlen d - 1) \<le> of_int d"
        using bd by (metis of_int_le_iff of_int_numeral of_int_power)
      show "(0::rat) < 2 ^ nat (bitlen d - 1)" by simp
      show "(0::rat) \<le> of_int n" using n by simp
    qed
    also have "\<dots> = 2 powi (bitlen n) / 2 powi (bitlen d - 1)"
      using bn0 bd1 by (simp add: power_int_def)
    also have "\<dots> = 2 powi (bitlen n - (bitlen d - 1))"
      by (rule power_int_diff [symmetric]) simp
    also have "bitlen n - (bitlen d - 1) = k + 1" by (simp add: k_def)
    finally have "q < 2 powi (k + 1)" unfolding q .
    moreover have "floor_log2 q = k" using True by (simp add: fl)
    ultimately show ?thesis by simp
  qed
qed

lemma round64_err:
  "\<bar>round64 q - q\<bar> \<le> \<bar>q\<bar> / 2 ^ 53"
proof (cases "q = 0")
  case True
  then show ?thesis by (simp add: round64_def)
next
  case False
  define e where "e = floor_log2 \<bar>q\<bar>"
  define u :: rat where "u = 2 powi (e - 52)"
  have u: "0 < u" by (simp add: u_def)
  have r: "round64 q = of_int (round_half_even (q / u)) * u"
    using False by (simp add: round64_def e_def u_def Let_def)
  have "round64 q - q = (of_int (round_half_even (q / u)) - q / u) * u"
    using u by (simp add: r field_simps)
  then have "\<bar>round64 q - q\<bar> = \<bar>of_int (round_half_even (q / u)) - q / u\<bar> * u"
    using u by (simp add: abs_mult)
  also have "\<dots> \<le> (1 / 2) * u"
    using u round_half_even_err [of "q / u"] by (intro mult_right_mono) simp_all
  also have "\<dots> = 2 powi e / 2 ^ 53"
    by (simp add: u_def power_int_diff)
  also have "\<dots> \<le> \<bar>q\<bar> / 2 ^ 53"
    using floor_log2_le [of "\<bar>q\<bar>"] False by (simp add: e_def divide_right_mono)
  finally show ?thesis .
qed

lemma round64_of_int:
  assumes "\<bar>n\<bar> < 2 ^ 53"
  shows "round64 (of_int n) = of_int n"
proof (cases "n = 0")
  case True
  then show ?thesis by (simp add: round64_def)
next
  case False
  define e where "e = floor_log2 \<bar>of_int n\<bar>"
  define u :: rat where "u = 2 powi (e - 52)"
  have "2 powi e \<le> \<bar>of_int n :: rat\<bar>"
    unfolding e_def using False by (intro floor_log2_le) simp
  also have "\<dots> < 2 ^ 53"
    using assms by (metis of_int_abs of_int_less_iff of_int_numeral of_int_power)
  finally have lt: "(2::rat) powi e < 2 ^ 53" .
  have e: "e < 53"
  proof (rule ccontr)
    assume "\<not> e < 53"
    then have "(2::rat) powi 53 \<le> 2 powi e" by (intro power_int_increasing) simp_all
    with lt show False by simp
  qed
  define p :: int where "p = 2 ^ nat (52 - e)"
  have p: "0 < p" by (simp add: p_def)
  have "u = inverse (2 powi (52 - e))"
    using power_int_minus [of "2::rat" "52 - e"] by (simp add: u_def)
  also have "(2::rat) powi (52 - e) = of_int p"
    using e by (simp add: power_int_def p_def)
  finally have up: "u = inverse (of_int p)" .
  have "of_int n / u = (of_int (n * p) :: rat)"
    using p by (simp add: up divide_inverse)
  then have "round_half_even (of_int n / u) = n * p"
    by (simp only: round_half_even_of_int)
  moreover have "round64 (of_int n) = of_int (round_half_even (of_int n / u)) * u"
    using False by (simp add: round64_def e_def u_def Let_def)
  ultimately show ?thesis
    using p by (simp add: up)
qed

lemma floor_rat_numeral_div: "\<lfloor>numeral a / numeral b :: rat\<rfloor> = numeral a div numeral b"
  using floor_divide_of_int_eq [of "numeral a" "numeral b", where ?'a = rat] by simp

lemma num_add_I: "\<bar>a + b\<bar> < 2 ^ 53 \<Longrightarrow> num_add (I a) (I b) = I (a + b)"
  using round64_of_int [of "a + b"] by (simp add: I_def)

lemma num_sub_I: "\<bar>a - b\<bar> < 2 ^ 53 \<Longrightarrow> num_sub (I a) (I b) = I (a - b)"
  using round64_of_int [of "a - b"] by (simp add: I_def)

lemma num_mul_I: "\<bar>a * b\<bar> < 2 ^ 53 \<Longrightarrow> num_mul (I a) (I b) = I (a * b)"
  using round64_of_int [of "a * b"] by (simp add: I_def)

lemma num_cmp_I [simp]:
  "num_lt (I a) (I b) \<longleftrightarrow> a < b"
  "num_le (I a) (I b) \<longleftrightarrow> a \<le> b"
  "num_eq (I a) (I b) \<longleftrightarrow> a = b"
  "isInteger (I a)" "\<not> isNaN (I a)" "the_int (I a) = a" "I a \<noteq> NaN" "I a = I b \<longleftrightarrow> a = b"
  by (simp_all add: I_def)

lemma trunc_of_int [simp]: "trunc (of_int n) = n"
  by (simp add: trunc_def)

lemma wrap32_id: "- (2 ^ 31) \<le> n \<Longrightarrow> n < 2 ^ 31 \<Longrightarrow> wrap32 n = n"
  by (simp add: wrap32_def)

lemma ToInt32_I: "- (2 ^ 31) \<le> n \<Longrightarrow> n < 2 ^ 31 \<Longrightarrow> ToInt32 (I n) = n"
  by (simp add: I_def wrap32_id)

lemma floor_round64_div:
  assumes a: "0 \<le> a" "a < 2 ^ 31" and b: "0 < b" "b \<le> 2 ^ 20"
  shows "\<lfloor>round64 (of_int a / of_int b)\<rfloor> = a div b"
proof -
  define k r where "k = a div b" and "r = a mod b"
  define q :: rat where "q = of_int a / of_int b"
  have "a = b * k + r" by (simp add: k_def r_def)
  then have "(of_int a :: rat) = of_int b * of_int k + of_int r"
    by (metis of_int_add of_int_mult)
  then have qeq: "q = of_int k + of_int r / of_int b"
    using b by (simp add: q_def field_simps)
  have r: "0 \<le> r" "r < b" using b by (simp_all add: r_def)
  have k0: "0 \<le> k" using a b by (simp add: k_def pos_imp_zdiv_nonneg_iff)
  then have "k * 1 \<le> k * b" using b by (intro mult_left_mono) simp_all
  with \<open>a = b * k + r\<close> r have k: "0 \<le> k" "k \<le> a" using k0 by (simp_all add: mult.commute)
  show ?thesis
  proof (cases "r = 0")
    case True
    have "\<bar>k\<bar> < 2 ^ 53" using k a by simp
    then have "round64 (of_int k) = of_int k" by (rule round64_of_int)
    then show ?thesis using True by (simp add: qeq q_def [symmetric] k_def)
  next
    case False
    with r have r1: "1 \<le> r" by simp
    have bq: "(0::rat) < of_int b" "(of_int b :: rat) \<le> 2 ^ 20"
      using b by (simp_all add: of_int_le_numeral_power_cancel_iff)
    have lb: "1 / of_int b \<le> (of_int r / of_int b :: rat)"
      using r1 bq by (simp add: divide_right_mono)
    have "(of_int r :: rat) \<le> of_int b - 1" using r by (metis of_int_1 of_int_diff of_int_le_iff zle_diff1_eq)
    then have "(of_int r / of_int b :: rat) \<le> (of_int b - 1) / of_int b"
      using bq by (simp add: divide_right_mono)
    also have "\<dots> = 1 - 1 / of_int b" using bq by (simp add: field_simps)
    finally have ub: "(of_int r / of_int b :: rat) \<le> 1 - 1 / of_int b" .
    have binv: "1 / 1048576 \<le> 1 / (of_int b :: rat)"
      using bq by (intro frac_le) simp_all
    have q0: "0 \<le> q" using a bq by (simp add: q_def)
    have "q \<le> of_int a"
      using a b by (simp add: q_def field_simps mult_le_cancel_left1 flip: of_int_mult)
    also have "\<dots> \<le> 2 ^ 31" using a by (simp add: of_int_le_numeral_power_cancel_iff)
    finally have "\<bar>q\<bar> / 2 ^ 53 \<le> 2 ^ 31 / 2 ^ 53" using q0 by (simp add: divide_right_mono)
    with round64_err [of q] have err: "\<bar>round64 q - q\<bar> \<le> 1 / 4194304" by simp
    have "of_int k \<le> round64 q" "round64 q < of_int k + 1"
      using err lb ub binv unfolding qeq by linarith+
    then have "\<lfloor>round64 q\<rfloor> = k" by (rule floor_unique)
    then show ?thesis by (simp add: q_def k_def)
  qed
qed

lemma ToInt32_div:
  assumes "0 \<le> a" "a < 2 ^ 31" "0 < b" "b \<le> 2 ^ 20"
  shows "ToInt32 (num_div (I a) (I b)) = a div b"
proof -
  define x where "x = round64 (of_int a / of_int b)"
  have fl: "\<lfloor>x\<rfloor> = a div b" unfolding x_def using assms by (rule floor_round64_div)
  have k0: "0 \<le> a div b" using assms by (simp add: pos_imp_zdiv_nonneg_iff)
  have "a div b \<le> a div 1" using assms by (intro zdiv_mono2) simp_all
  then have k1: "a div b < 2 ^ 31" using assms by simp
  have "of_int (a div b) \<le> x" using fl of_int_floor_le [of x] by simp
  then have "0 \<le> x" using k0 by (meson of_int_nonneg order_trans)
  then have "trunc x = a div b" by (simp add: trunc_def fl)
  then show ?thesis using assms k0 k1 by (simp add: I_def x_def wrap32_id)
qed

lemma ToInt32_div_365_25:
  assumes "0 \<le> a" "a < 2 ^ 29"
  shows "ToInt32 (num_div (I a) (Fin (36525 / 100))) = (4 * a) div 1461"
proof -
  have "(of_int a / (36525 / 100) :: rat) = of_int (4 * a) / of_int 1461" by simp
  then have "num_div (I a) (Fin (36525 / 100)) = num_div (I (4 * a)) (I 1461)"
    by (simp only: I_def num_div.simps) simp
  then show ?thesis using assms by (simp add: ToInt32_div)
qed

lemma num_rem_eq0:
  assumes "b \<noteq> 0"
  shows "num_eq (num_rem (I a) (I b)) (I 0) \<longleftrightarrow> a mod b = 0"
proof -
  define t where "t = trunc (of_int a / of_int b)"
  have "num_eq (num_rem (I a) (I b)) (I 0) \<longleftrightarrow> (of_int a :: rat) = of_int b * of_int t"
    using assms by (simp add: I_def t_def)
  also have "\<dots> \<longleftrightarrow> a = b * t" by (metis of_int_eq_iff of_int_mult)
  also have "\<dots> \<longleftrightarrow> a mod b = 0"
  proof
    assume "a = b * t" then show "a mod b = 0" by simp
  next
    assume "a mod b = 0"
    then have "a = b * (a div b)" by (metis mult_div_mod_eq add.right_neutral)
    then have "(of_int a / of_int b :: rat) = of_int (a div b)"
      using assms by (metis nonzero_mult_div_cancel_left of_int_eq_0_iff of_int_mult)
    then have "t = a div b" by (simp add: t_def)
    with \<open>a = b * (a div b)\<close> show "a = b * t" by simp
  qed
  finally show ?thesis .
qed

lemma num_rem_I:
  assumes "0 \<le> a" "0 < b"
  shows "num_rem (I a) (I b) = I (a mod b)"
proof -
  have "(0::rat) \<le> of_int a / of_int b" using assms by simp
  then have "trunc (of_int a / of_int b) = a div b"
    by (simp add: trunc_def floor_divide_of_int_eq)
  moreover have "a - b * (a div b) = a mod b" by (simp add: minus_mult_div_eq_mod)
  ultimately show ?thesis using assms
    by (simp add: I_def) (metis of_int_diff of_int_mult)
qed

lemma isLeapYear_I: "isLeapYear (I y) = leap y"
  by (simp add: isLeapYear_def leap_def num_rem_eq0)

lemma yearStart_I:
  assumes "0 \<le> y" "y \<le> 1000000"
  shows "yearStart (I y) = I (jan1 y)"
proof -
  have d4: "ToInt32 (num_div (num_add (I y) (I 3)) (I 4)) = (y + 3) div 4"
    using assms by (simp add: num_add_I ToInt32_div)
  have d100: "ToInt32 (num_div (num_add (I y) (I 99)) (I 100)) = (y + 99) div 100"
    using assms by (simp add: num_add_I ToInt32_div)
  have d400: "ToInt32 (num_div (num_add (I y) (I 399)) (I 400)) = (y + 399) div 400"
    using assms by (simp add: num_add_I ToInt32_div)
  have b4: "0 \<le> (y + 3) div 4" "(y + 3) div 4 \<le> 250001" using assms by simp_all
  have b100: "0 \<le> (y + 99) div 100" "(y + 99) div 100 \<le> 10001" using assms by simp_all
  have b400: "0 \<le> (y + 399) div 400" "(y + 399) div 400 \<le> 2501" using assms by simp_all
  show ?thesis
    unfolding yearStart_def d4 d100 d400 jan1_def
    using assms b4 b100 b400 by (simp add: num_add_I num_sub_I num_mul_I)
qed

section \<open>The program on integers\<close>

text \<open>
  On integer arguments in range the functions of the program compute the integer formulas of
  the calendar.
\<close>

lemma month_cases:
  assumes "1 \<le> m" "m \<le> 12"
  obtains "m = 1" | "m = 2" | "m = 3" | "m = 4" | "m = 5" | "m = 6"
    | "m = 7" | "m = 8" | "m = 9" | "m = 10" | "m = 11" | "m = (12::int)"
proof -
  have "m = 1 \<or> m = 2 \<or> m = 3 \<or> m = 4 \<or> m = 5 \<or> m = 6
      \<or> m = 7 \<or> m = 8 \<or> m = 9 \<or> m = 10 \<or> m = 11 \<or> m = 12"
    using assms by arith
  then show ?thesis using that by blast
qed

lemma optimizedDaysInMonth_I:
  assumes "1 \<le> m" "m \<le> 12" "m \<noteq> 2"
  shows "optimizedDaysInMonth (I m) = I (month_length y m)"
  using assms(1,2)
proof (cases m rule: month_cases)
  case 2
  with assms show ?thesis by simp
qed (simp_all add: optimizedDaysInMonth_def ToInt32_I month_length_def)

lemma daysInMonth_I:
  assumes "1 \<le> m" "m \<le> 12"
  shows "daysInMonth (I y) (I m) = I (month_length y m)"
proof (cases "m = 2")
  case True
  then show ?thesis by (simp add: daysInMonth_def isLeapYear_I month_length_def)
next
  case False
  then show ?thesis using assms by (simp add: daysInMonth_def optimizedDaysInMonth_I)
qed

lemma MONTH_SUMS_I:
  assumes "1 \<le> m" "m \<le> 12"
  shows "array_get MONTH_SUMS_NORMAL_YEAR (I m) = I (cumulativeDaysBeforeMonth m)"
  using assms
  by (cases m rule: month_cases)
     (simp_all add: array_get_def MONTH_SUMS_NORMAL_YEAR_def cumulativeDaysBeforeMonth_def I_def)

lemma cumulativeDaysBeforeMonth_bounds:
  assumes "1 \<le> m" "m \<le> 12"
  shows "0 \<le> cumulativeDaysBeforeMonth m" "cumulativeDaysBeforeMonth m \<le> 334"
  using assms
  by (cases m rule: month_cases; simp add: cumulativeDaysBeforeMonth_def)+

lemma jan1_bounds:
  assumes "0 \<le> y" "y \<le> 1000000"
  shows "0 \<le> jan1 y" "jan1 y \<le> 366000000"
  using assms unfolding jan1_def by linarith+

lemma tripletToDaysValue_I:
  assumes y: "0 \<le> y" "y \<le> 1000000" and m: "1 \<le> m" "m \<le> 12"
  shows "tripletToDaysValue (I y) (I m) (I d) =
           (if d \<le> 0 \<or> month_length y m < d then Inl DayOutOfRange
            else Inr (I (ordinalOf y m d)))"
proof (cases "d \<le> 0 \<or> month_length y m < d")
  case True
  then show ?thesis using m by (simp add: tripletToDaysValue_def daysInMonth_I)
next
  case False
  then have d: "1 \<le> d" "d \<le> 31" by (auto simp: month_length_def split: if_splits)
  note c = cumulativeDaysBeforeMonth_bounds [OF m]
  note j = jan1_bounds [OF y]
  have "num_sub (num_add (num_add (I (jan1 y)) (I (cumulativeDaysBeforeMonth m))) (I d)) (I 1)
          = I (jan1 y + cumulativeDaysBeforeMonth m + d - 1)"
    using c j d by (simp add: num_add_I num_sub_I)
  moreover have "num_add (I (jan1 y + cumulativeDaysBeforeMonth m + d - 1)) (I 1)
          = I (jan1 y + cumulativeDaysBeforeMonth m + d - 1 + 1)"
    using c j d by (simp add: num_add_I)
  ultimately show ?thesis
    using False m y
    by (simp add: tripletToDaysValue_def daysInMonth_I yearStart_I MONTH_SUMS_I isLeapYear_I
        ordinalOf_def Let_def)
qed

lemma new_CalendarDate_I:
  "new_CalendarDate (I v) =
     (if v < 366 \<or> 3652424 < v then Inl ValueOutOfRange else Inr (CalendarDate v))"
  by (simp add: new_CalendarDate_def)

lemma create_I:
  assumes "0 \<le> y" "y \<le> 1000000" "1 \<le> m" "m \<le> 12"
  shows "create (I y) (I m) (I d) =
           (if d \<le> 0 \<or> month_length y m < d then Inl DayOutOfRange
            else if ordinalOf y m d < 366 \<or> 3652424 < ordinalOf y m d then Inl ValueOutOfRange
            else Inr (CalendarDate (ordinalOf y m d)))"
  using assms by (simp add: create_def tripletToDaysValue_I new_CalendarDate_I)

lemma year_closed_form:
  assumes "0 \<le> v" "v \<le> 100000000"
  shows "year (CalendarDate v) = (4 * (v + v div 36525 - v div 36525 div 4)) div 1461"
proof -
  define c where "c = v div 36525"
  have c: "0 \<le> c" "c \<le> 2738" using assms by (simp_all add: c_def)
  have c4: "0 \<le> c div 4" "c div 4 \<le> c" using c by simp_all
  have 1: "ToInt32 (num_div (I v) (I 36525)) = c"
    using assms by (simp add: ToInt32_div c_def)
  have 2: "ToInt32 (num_div (I c) (I 4)) = c div 4"
    using c by (simp add: ToInt32_div)
  have 3: "num_sub (num_add (I v) (I c)) (I (c div 4)) = I (v + c - c div 4)"
    using assms c c4 by (simp add: num_add_I num_sub_I)
  have 4: "ToInt32 (num_div (I (v + c - c div 4)) (Fin (36525 / 100)))
             = (4 * (v + c - c div 4)) div 1461"
    using assms c c4 by (intro ToInt32_div_365_25) simp_all
  show ?thesis
    unfolding year_def CalendarDate.sel 1 Let_def 2 3 4 by (simp only: c_def)
qed

section \<open>The year formula\<close>

lemma div_ceil_step:
  fixes y n :: int
  assumes "0 < n"
  shows "(y + n) div n - (y + (n - 1)) div n = (if y mod n = 0 then 1 else 0)"
proof -
  define q r where "q = y div n" and "r = y mod n"
  have y: "y = q * n + r" by (simp add: q_def r_def)
  have r: "0 \<le> r" "r < n" using assms by (simp_all add: r_def)
  have 1: "(y + n) div n = q + 1" using assms by (simp add: q_def)
  have "(y + (n - 1)) div n = (r + (n - 1) + q * n) div n" by (simp add: y algebra_simps)
  also have "\<dots> = (r + (n - 1)) div n + q" using assms by simp
  finally have 2: "(y + (n - 1)) div n = (r + (n - 1)) div n + q" .
  show ?thesis
  proof (cases "r = 0")
    case True
    then have "(r + (n - 1)) div n = 0" using assms by (simp add: div_pos_pos_trivial)
    then show ?thesis using True 1 2 by (simp add: r_def)
  next
    case False
    then have "(r + (n - 1)) div n = (r - 1 + n) div n" by (simp add: algebra_simps)
    also have "\<dots> = (r - 1) div n + 1" using assms by simp
    also have "(r - 1) div n = 0" using r False by (simp add: div_pos_pos_trivial)
    finally show ?thesis using False 1 2 by (simp add: r_def)
  qed
qed


lemma mod_chain:
  fixes y :: int
  shows "y mod 400 = 0 \<Longrightarrow> y mod 100 = 0" and "y mod 100 = 0 \<Longrightarrow> y mod 4 = 0"
proof -
  have a: "(100::int) dvd 400" and b: "(4::int) dvd 100" by simp_all
  show "y mod 400 = 0 \<Longrightarrow> y mod 100 = 0"
    using dvd_trans [OF a, of y] by (simp add: mod_eq_0_iff_dvd)
  show "y mod 100 = 0 \<Longrightarrow> y mod 4 = 0"
    using dvd_trans [OF b, of y] by (simp add: mod_eq_0_iff_dvd)
qed

lemma leap_count:
  assumes "p400 \<Longrightarrow> p100" "p100 \<Longrightarrow> p4"
  shows "(365::int) + (if p4 then 1 else 0) - (if p100 then 1 else 0) + (if p400 then 1 else 0)
           = 365 + (if p4 \<and> (\<not> p100 \<or> p400) then 1 else 0)"
  using assms by (cases p4; cases p100; cases p400; simp)

lemma jan1_step: "jan1 (y + 1) = jan1 y + 365 + (if leap y then 1 else 0)"
proof -
  have "jan1 (y + 1) - jan1 y =
      365 + ((y + 4) div 4 - (y + (4 - 1)) div 4) - ((y + 100) div 100 - (y + (100 - 1)) div 100)
          + ((y + 400) div 400 - (y + (400 - 1)) div 400)"
    by (simp add: jan1_def algebra_simps)
  also have "\<dots> = 365 + (if y mod 4 = 0 then 1 else 0) - (if y mod 100 = 0 then 1 else 0)
      + (if y mod 400 = 0 then 1 else 0)"
    by (simp only: div_ceil_step [of 4 y] div_ceil_step [of 100 y] div_ceil_step [of 400 y]
        zero_less_numeral)
  also have "\<dots> = 365 + (if y mod 4 = 0 \<and> (\<not> y mod 100 = 0 \<or> y mod 400 = 0) then 1 else 0)"
    by (rule leap_count) (erule mod_chain(1), erule mod_chain(2))
  finally show ?thesis by (simp add: leap_def)
qed

lemma jan1_mono: "a \<le> b \<Longrightarrow> jan1 a \<le> jan1 b"
proof (induction "nat (b - a)" arbitrary: b)
  case 0
  then show ?case by simp
next
  case (Suc n)
  then have "n = nat (b - 1 - a)" "a \<le> b - 1" by simp_all
  then have "jan1 a \<le> jan1 (b - 1)" by (rule Suc.hyps(1))
  also have "\<dots> \<le> jan1 (b - 1 + 1)" unfolding jan1_step by simp
  finally show ?case by simp
qed

lemma jan1_Suc:
  "jan1 (x + 1) = 365 * (x + 1) + x div 4 - x div 100 + x div 100 div 4 + 1"
proof -
  have "(x + 1 + 3) div 4 = x div 4 + 1" "(x + 1 + 99) div 100 = x div 100 + 1"
       "(x + 1 + 399) div 400 = x div 400 + 1" by simp_all
  moreover have "x div 400 = x div 100 div 4" by (simp add: zdiv_zmult2_eq [symmetric])
  ultimately show ?thesis by (simp add: jan1_def)
qed

lemma quarter_mono: "(a::int) \<le> b \<Longrightarrow> a - a div 4 \<le> b - b div 4"
  by arith

lemma year_of_ordinal:
  assumes y: "1 \<le> y" "y \<le> 30000" and v: "jan1 y \<le> v" "v < jan1 (y + 1)"
  shows "(4 * (v + v div 36525 - v div 36525 div 4)) div 1461 = y"
proof -
  define x where "x = y - 1"
  define j where "j = x div 100"
  define J where "J = y div 100"
  define c where "c = v div 36525"
  define xq yq jq Jq cq
    where "xq = x div 4" and "yq = y div 4" and "jq = j div 4" and "Jq = J div 4"
      and "cq = c div 4"
  have x: "0 \<le> x" "y = x + 1" using y by (simp_all add: x_def)
  have lo: "365 * y + xq - j + jq + 1 \<le> v"
    using v(1) jan1_Suc [of x] by (simp add: x j_def xq_def jq_def)
  have hi: "v \<le> 365 * y + 365 + yq - J + Jq"
    using v(2) jan1_Suc [of y] by (simp add: J_def yq_def Jq_def)
  have j: "0 \<le> j" "j \<le> 299" "100 * j \<le> x"
    using x y unfolding j_def by linarith+
  have xq: "25 * j \<le> xq" "x - 3 \<le> 4 * xq"
    using j(3) unfolding xq_def by linarith+
  have J: "0 \<le> J" "y \<le> 100 * J + 99"
    using y unfolding J_def by linarith+
  have yq: "yq \<le> 25 * J + 24" "4 * yq \<le> y"
    using J(2) unfolding yq_def by linarith+
  have jq: "0 \<le> jq" "jq \<le> j" using j unfolding jq_def by linarith+
  have Jq: "0 \<le> Jq" "Jq \<le> J" using J unfolding Jq_def by linarith+
  have "36525 * j \<le> v" using lo j jq xq x by linarith
  then have A: "j \<le> c" unfolding c_def by linarith
  have "v < 36525 * J + 36525" using hi J Jq yq by linarith
  then have B: "c \<le> J" unfolding c_def by linarith
  have kl: "j - jq \<le> c - cq" unfolding jq_def cq_def using A by (rule quarter_mono)
  have ku: "c - cq \<le> J - Jq" unfolding Jq_def cq_def using B by (rule quarter_mono)
  define t where "t = 4 * (v + c - cq)"
  have t: "t = 4 * v + 4 * c - 4 * cq" by (simp add: t_def)
  have "1461 * y \<le> t" using lo kl xq x unfolding t by linarith
  moreover have "t < 1461 * y + 1461" using hi ku yq unfolding t by linarith
  ultimately have "t div 1461 = y" by linarith
  then show ?thesis by (simp only: t_def c_def cq_def)
qed

lemma jan1_1: "jan1 1 = 366" and jan1_10000: "jan1 10000 = 3652425"
  by (simp_all add: jan1_def)

lemma year_exists:
  assumes "366 \<le> v" "v \<le> 3652424"
  shows "\<exists>y. 1 \<le> y \<and> y \<le> 9999 \<and> jan1 y \<le> v \<and> v < jan1 (y + 1)"
proof -
  define S where "S = {y. 1 \<le> y \<and> y \<le> 9999 \<and> jan1 y \<le> v}"
  have fin: "finite S" unfolding S_def by (rule finite_subset [of _ "{1..9999}"]) auto
  have ne: "S \<noteq> {}" using assms jan1_1 by (auto simp: S_def intro: exI [of _ 1])
  define y where "y = Max S"
  have "y \<in> S" unfolding y_def using fin ne by (rule Max_in)
  then have y: "1 \<le> y" "y \<le> 9999" "jan1 y \<le> v" by (simp_all add: S_def)
  have "v < jan1 (y + 1)"
  proof (rule ccontr)
    assume n: "\<not> v < jan1 (y + 1)"
    have "y + 1 \<le> 9999"
    proof (rule ccontr)
      assume "\<not> y + 1 \<le> 9999"
      with y have "y + 1 = 10000" by simp
      with n assms jan1_10000 show False by simp
    qed
    with n y have "y + 1 \<in> S" by (simp add: S_def)
    then have "y + 1 \<le> y" unfolding y_def by (rule Max_ge [OF fin])
    then show False by simp
  qed
  with y show ?thesis by blast
qed

section \<open>The month tables and the accessors\<close>

lemma repeat_single: "0 \<le> n \<Longrightarrow> repeat [x] n = replicate (nat n) x"
  by (simp add: repeat_def)

lemma str_simps: "str [] = []" "str (c # cs) = of_char c # str cs"
  by (simp_all add: str_def)

lemma opt_vals:
  "the_int (optimizedDaysInMonth (I 3)) = 31" "the_int (optimizedDaysInMonth (I 4)) = 30"
  "the_int (optimizedDaysInMonth (I 5)) = 31" "the_int (optimizedDaysInMonth (I 6)) = 30"
  "the_int (optimizedDaysInMonth (I 7)) = 31" "the_int (optimizedDaysInMonth (I 8)) = 31"
  "the_int (optimizedDaysInMonth (I 9)) = 30" "the_int (optimizedDaysInMonth (I 10)) = 31"
  "the_int (optimizedDaysInMonth (I 11)) = 30" "the_int (optimizedDaysInMonth (I 12)) = 31"
  by (simp_all add: optimizedDaysInMonth_def ToInt32_I)

lemma end_months_eq:
  "end_months = replicate 31 67 @ replicate 30 68 @ replicate 31 69 @ replicate 30 70
     @ replicate 31 71 @ replicate 31 72 @ replicate 30 73 @ replicate 31 74
     @ replicate 30 75 @ replicate 31 76"
proof -
  have u: "[0..<10] = [0, 1, 2, 3, 4, 5, 6, 7, 8, 9::nat]" by (simp add: upt_rec)
  show ?thesis
    unfolding end_months_def u
    by (simp add: str_simps repeat_single opt_vals)
qed

lemma pre_eq: "pre = replicate 31 65 @ replicate 28 66"
  by (simp add: pre_def str_simps repeat_single)

lemma NORMAL_YEAR_nth:
  assumes "1 \<le> m" "m \<le> 12" "0 \<le> i" "i < month_length y m" "\<not> leap y"
  shows "NORMAL_YEAR ! nat (cumulativeDaysBeforeMonth m + i) = nat (64 + m)"
  using assms(1,2)
proof (cases m rule: month_cases)
qed (use assms in \<open>simp_all add: NORMAL_YEAR_def pre_eq end_months_eq cumulativeDaysBeforeMonth_def
        month_length_def nth_append nat_less_iff nat_add_distrib nth_replicate\<close>)

lemma LEAP_YEAR_nth:
  assumes "1 \<le> m" "m \<le> 12" "0 \<le> i" "i < month_length y m" "leap y"
  shows "LEAP_YEAR ! nat (cumulativeDaysBeforeMonth m + (if 2 < m then 1 else 0) + i) = nat (64 + m)"
  using assms(1,2)
proof (cases m rule: month_cases)
qed (use assms in \<open>simp_all add: LEAP_YEAR_def pre_eq end_months_eq cumulativeDaysBeforeMonth_def
        month_length_def nth_append nat_less_iff nat_add_distrib nth_replicate str_simps
        nth_Cons'\<close>)

lemma table_lengths: "length NORMAL_YEAR = 365" "length LEAP_YEAR = 366"
  by (simp_all add: NORMAL_YEAR_def LEAP_YEAR_def pre_eq end_months_eq str_simps)

lemma MONTHS_CHAR_OFFSET_eq: "MONTHS_CHAR_OFFSET = I 64"
  by (simp add: MONTHS_CHAR_OFFSET_def charCodeAt_def str_simps I_def trunc_def)
     (simp add: num_sub_I [unfolded I_def, of 65 1, simplified])

lemma charCodeAt_I:
  "0 \<le> k \<Longrightarrow> k < int (length s) \<Longrightarrow> charCodeAt s (I k) = I (int (s ! nat k))"
  by (simp add: charCodeAt_def I_def)

lemma doy_bounds:
  assumes "valid_triple y m d"
  shows "0 \<le> cumulativeDaysBeforeMonth m + (if leap y \<and> 2 < m then 1 else 0) + (d - 1)"
    and "cumulativeDaysBeforeMonth m + (if leap y \<and> 2 < m then 1 else 0) + (d - 1)
           < 365 + (if leap y then 1 else 0)"
proof -
  from assms have m: "1 \<le> m" "m \<le> 12" and d: "1 \<le> d" "d \<le> month_length y m"
    by (simp_all add: valid_triple_def)
  from m show "0 \<le> cumulativeDaysBeforeMonth m + (if leap y \<and> 2 < m then 1 else 0) + (d - 1)"
    using d cumulativeDaysBeforeMonth_bounds [OF m] by simp
  from m show "cumulativeDaysBeforeMonth m + (if leap y \<and> 2 < m then 1 else 0) + (d - 1)
           < 365 + (if leap y then 1 else 0)"
    by (cases m rule: month_cases)
       (use d in \<open>simp_all add: cumulativeDaysBeforeMonth_def month_length_def split: if_splits\<close>)
qed

lemma ordinal_in_year:
  assumes "valid_triple y m d"
  shows "jan1 y \<le> ordinalOf y m d" "ordinalOf y m d < jan1 (y + 1)"
  using doy_bounds [OF assms] by (simp_all add: ordinalOf_def jan1_step)

lemma ordinal_range:
  assumes "1 \<le> y" "y \<le> 9999" "valid_triple y m d"
  shows "366 \<le> ordinalOf y m d" "ordinalOf y m d \<le> 3652424"
proof -
  have "jan1 1 \<le> jan1 y" "jan1 (y + 1) \<le> jan1 10000"
    using assms by (simp_all add: jan1_mono)
  then show "366 \<le> ordinalOf y m d" "ordinalOf y m d \<le> 3652424"
    using ordinal_in_year [OF assms(3)] by (simp_all add: jan1_1 jan1_10000)
qed

lemma year_ordinalOf:
  assumes "1 \<le> y" "y \<le> 9999" "valid_triple y m d"
  shows "year (CalendarDate (ordinalOf y m d)) = y"
proof -
  note r = ordinal_range [OF assms]
  have "year (CalendarDate (ordinalOf y m d))
      = (4 * (ordinalOf y m d + ordinalOf y m d div 36525 - ordinalOf y m d div 36525 div 4)) div 1461"
    using r by (intro year_closed_form) simp_all
  also have "\<dots> = y"
    using assms(1,2) ordinal_in_year [OF assms(3)] by (intro year_of_ordinal) simp_all
  finally show ?thesis .
qed

lemma month_ordinalOf:
  assumes "1 \<le> y" "y \<le> 9999" "valid_triple y m d"
  shows "month (CalendarDate (ordinalOf y m d)) = I m"
proof -
  from assms(3) have m: "1 \<le> m" "m \<le> 12" and d: "1 \<le> d" "d \<le> month_length y m"
    by (simp_all add: valid_triple_def)
  define k where "k = cumulativeDaysBeforeMonth m + (if leap y \<and> 2 < m then 1 else 0) + (d - 1)"
  have k: "0 \<le> k" "k < 365 + (if leap y then 1 else 0)"
    using doy_bounds [OF assms(3)] by (simp_all add: k_def)
  have v: "ordinalOf y m d = jan1 y + k" by (simp add: ordinalOf_def k_def)
  note j = jan1_bounds [of y]
  have k365: "k \<le> 365" using k by (simp split: if_splits)
  have "num_sub (I (jan1 y + k)) (I (jan1 y)) = I (jan1 y + k - jan1 y)"
    using k k365 by (intro num_sub_I) simp
  then have sub: "num_sub (I (ordinalOf y m d)) (yearStart (I y)) = I k"
    using assms(1,2) by (simp add: yearStart_I v)
  have yr: "year (CalendarDate (ordinalOf y m d)) = y" using assms by (rule year_ordinalOf)
  have off: "num_sub (I (int (nat (64 + m)))) (I 64) = I m"
    using m by (simp add: num_sub_I)
  show ?thesis
  proof (cases "leap y")
    case True
    have "LEAP_YEAR ! nat k = nat (64 + m)"
      using LEAP_YEAR_nth [OF m _ _ True, of "d - 1"] d True by (simp add: k_def)
    then show ?thesis
      using True k off
      by (simp add: month_def yr Let_def isLeapYear_I sub charCodeAt_I table_lengths
          MONTHS_CHAR_OFFSET_eq)
  next
    case False
    have "NORMAL_YEAR ! nat k = nat (64 + m)"
      using NORMAL_YEAR_nth [OF m _ _ False, of "d - 1"] d False by (simp add: k_def)
    then show ?thesis
      using False k off
      by (simp add: month_def yr Let_def isLeapYear_I sub charCodeAt_I table_lengths
          MONTHS_CHAR_OFFSET_eq)
  qed
qed

lemma day_ordinalOf:
  assumes "1 \<le> y" "y \<le> 9999" "valid_triple y m d"
  shows "day (CalendarDate (ordinalOf y m d)) = Inr (I d)"
proof -
  from assms(3) have m: "1 \<le> m" "m \<le> 12" and d: "1 \<le> d" "d \<le> month_length y m"
    by (simp_all add: valid_triple_def)
  have one: "\<not> (1 \<le> (0::int) \<or> month_length y m < 1)" by (simp add: month_length_def)
  have t: "tripletToDaysValue (I y) (I m) (I 1) = Inr (I (ordinalOf y m 1))"
    using assms(1,2) m one by (simp add: tripletToDaysValue_I)
  have "ordinalOf y m d - ordinalOf y m 1 = d - 1" by (simp add: ordinalOf_def)
  moreover have "d \<le> 31" using d by (simp add: month_length_def split: if_splits)
  ultimately have "num_add (num_sub (I (ordinalOf y m d)) (I (ordinalOf y m 1))) (I 1) = I d"
    using d by (simp add: num_sub_I num_add_I)
  then show ?thesis
    using assms by (simp add: day_def year_ordinalOf month_ordinalOf t)
qed

lemma month_pick:
  assumes "1 \<le> m" "m \<le> 12"
    and "cumulativeDaysBeforeMonth m + (if leap y \<and> 2 < m then 1 else 0) \<le> k"
    and "k < cumulativeDaysBeforeMonth m + (if leap y \<and> 2 < m then 1 else 0) + month_length y m"
  shows "\<exists>m d. valid_triple y m d
           \<and> k = cumulativeDaysBeforeMonth m + (if leap y \<and> 2 < m then 1 else 0) + (d - 1)"
proof -
  define d where "d = k - (cumulativeDaysBeforeMonth m + (if leap y \<and> 2 < m then 1 else 0)) + 1"
  have "valid_triple y m d" using assms by (simp add: valid_triple_def d_def)
  moreover have "k = cumulativeDaysBeforeMonth m + (if leap y \<and> 2 < m then 1 else 0) + (d - 1)"
    by (simp add: d_def)
  ultimately show ?thesis by blast
qed

lemma month_exists:
  assumes "0 \<le> k" "k < 365 + (if leap y then 1 else 0)"
  shows "\<exists>m d. valid_triple y m d
           \<and> k = cumulativeDaysBeforeMonth m + (if leap y \<and> 2 < m then 1 else 0) + (d - 1)"
proof -
  define b :: int where "b = (if leap y then 1 else 0)"
  have b: "b = 0 \<or> b = 1" by (simp add: b_def)
  consider "k < 31" | "31 \<le> k \<and> k < 59 + b" | "59 + b \<le> k \<and> k < 90 + b"
    | "90 + b \<le> k \<and> k < 120 + b" | "120 + b \<le> k \<and> k < 151 + b"
    | "151 + b \<le> k \<and> k < 181 + b" | "181 + b \<le> k \<and> k < 212 + b"
    | "212 + b \<le> k \<and> k < 243 + b" | "243 + b \<le> k \<and> k < 273 + b"
    | "273 + b \<le> k \<and> k < 304 + b" | "304 + b \<le> k \<and> k < 334 + b" | "334 + b \<le> k"
    by linarith
  then show ?thesis
  proof cases
    case 1 then show ?thesis using assms
      by (intro month_pick [of 1]) (simp_all add: cumulativeDaysBeforeMonth_def month_length_def)
  next
    case 2 then show ?thesis
      by (intro month_pick [of 2]) (simp_all add: cumulativeDaysBeforeMonth_def month_length_def b_def split: if_splits)
  next
    case 3 then show ?thesis
      by (intro month_pick [of 3]) (simp_all add: cumulativeDaysBeforeMonth_def month_length_def b_def split: if_splits)
  next
    case 4 then show ?thesis
      by (intro month_pick [of 4]) (simp_all add: cumulativeDaysBeforeMonth_def month_length_def b_def split: if_splits)
  next
    case 5 then show ?thesis
      by (intro month_pick [of 5]) (simp_all add: cumulativeDaysBeforeMonth_def month_length_def b_def split: if_splits)
  next
    case 6 then show ?thesis
      by (intro month_pick [of 6]) (simp_all add: cumulativeDaysBeforeMonth_def month_length_def b_def split: if_splits)
  next
    case 7 then show ?thesis
      by (intro month_pick [of 7]) (simp_all add: cumulativeDaysBeforeMonth_def month_length_def b_def split: if_splits)
  next
    case 8 then show ?thesis
      by (intro month_pick [of 8]) (simp_all add: cumulativeDaysBeforeMonth_def month_length_def b_def split: if_splits)
  next
    case 9 then show ?thesis
      by (intro month_pick [of 9]) (simp_all add: cumulativeDaysBeforeMonth_def month_length_def b_def split: if_splits)
  next
    case 10 then show ?thesis
      by (intro month_pick [of 10]) (simp_all add: cumulativeDaysBeforeMonth_def month_length_def b_def split: if_splits)
  next
    case 11 then show ?thesis
      by (intro month_pick [of 11]) (simp_all add: cumulativeDaysBeforeMonth_def month_length_def b_def split: if_splits)
  next
    case 12 then show ?thesis using assms
      by (intro month_pick [of 12]) (simp_all add: cumulativeDaysBeforeMonth_def month_length_def b_def split: if_splits)
  qed
qed

lemma triple_exists:
  assumes "366 \<le> v" "v \<le> 3652424"
  obtains y m d where "1 \<le> y" "y \<le> 9999" "valid_triple y m d" "ordinalOf y m d = v"
proof -
  from year_exists [OF assms] obtain y
    where y: "1 \<le> y" "y \<le> 9999" "jan1 y \<le> v" "v < jan1 (y + 1)" by blast
  have "0 \<le> v - jan1 y" "v - jan1 y < 365 + (if leap y then 1 else 0)"
    using y by (simp_all add: jan1_step)
  from month_exists [OF this] obtain m d where "valid_triple y m d"
    "v - jan1 y = cumulativeDaysBeforeMonth m + (if leap y \<and> 2 < m then 1 else 0) + (d - 1)"
    by blast
  then have "valid_triple y m d" "ordinalOf y m d = v" by (simp_all add: ordinalOf_def)
  with y(1,2) show ?thesis by (rule that)
qed

lemma year_boundaries:
  assumes "1 \<le> y" "y \<le> 9999"
  shows "tripletToDaysValue (I y) (I 1) (I 1) = Inr (I (jan1 y))"
    and "tripletToDaysValue (I y) (I 12) (I 31) = Inr (I (jan1 (y + 1) - 1))"
  using assms
  by (simp_all add: tripletToDaysValue_I month_length_def ordinalOf_def
      cumulativeDaysBeforeMonth_def jan1_step)

lemma floor_div_365_25:
  "\<lfloor>(of_int a :: rat) / (36525 / 100)\<rfloor> = (4 * a) div 1461"
proof -
  have "(of_int a / (36525 / 100) :: rat) = of_int (4 * a) / of_int 1461" by simp
  then show ?thesis by (simp only: floor_divide_of_int_eq)
qed

lemma lookup_ordinalOf:
  assumes "1 \<le> y" "y \<le> 9999" "valid_triple y m d"
  defines "k \<equiv> cumulativeDaysBeforeMonth m + (if leap y \<and> 2 < m then 1 else 0) + (d - 1)"
  shows "num_sub (I (ordinalOf y m d)) (yearStart (I y)) = I k"
    and "0 \<le> k" and "k \<le> (if leap y then 365 else 364)"
    and "(if leap y then LEAP_YEAR else NORMAL_YEAR) ! nat k = nat (64 + m)"
proof -
  from assms(3) have m: "1 \<le> m" "m \<le> 12" and d: "1 \<le> d" "d \<le> month_length y m"
    by (simp_all add: valid_triple_def)
  have k: "0 \<le> k" "k < 365 + (if leap y then 1 else 0)"
    using doy_bounds [OF assms(3)] by (simp_all add: k_def)
  then show "0 \<le> k" and "k \<le> (if leap y then 365 else 364)" by (simp_all split: if_splits)
  then have k365: "k \<le> 365" by (simp split: if_splits)
  have v: "ordinalOf y m d = jan1 y + k" by (simp add: ordinalOf_def k_def)
  have "num_sub (I (jan1 y + k)) (I (jan1 y)) = I (jan1 y + k - jan1 y)"
    using k k365 by (intro num_sub_I) simp
  then show "num_sub (I (ordinalOf y m d)) (yearStart (I y)) = I k"
    using assms(1,2) by (simp add: yearStart_I v)
  show "(if leap y then LEAP_YEAR else NORMAL_YEAR) ! nat k = nat (64 + m)"
  proof (cases "leap y")
    case True
    then show ?thesis
      using LEAP_YEAR_nth [OF m _ _ True, of "d - 1"] d by (simp add: k_def)
  next
    case False
    then show ?thesis
      using NORMAL_YEAR_nth [OF m _ _ False, of "d - 1"] d by (simp add: k_def)
  qed
qed

section \<open>Calendar arithmetic\<close>

lemma round64_far:
  assumes "2 ^ 53 \<le> \<bar>n\<bar>"
  shows "round64 (of_int n) < 366 \<or> 3652424 < round64 (of_int n)"
proof -
  define q :: rat where "q = of_int n"
  have e: "\<bar>round64 q - q\<bar> \<le> \<bar>q\<bar> / 9007199254740992"
    using round64_err [of q] by simp
  have "(2 ^ 53 :: rat) \<le> \<bar>q\<bar>"
    unfolding q_def using assms by (metis of_int_abs of_int_le_iff of_int_numeral of_int_power)
  then have "9007199254740992 \<le> \<bar>q\<bar>" by simp
  then show ?thesis unfolding q_def [symmetric] using e by linarith
qed

lemma addDays_I:
  "addDays (CalendarDate v) (I n) = new_CalendarDate (I (v + n))"
proof (cases "\<bar>v + n\<bar> < 2 ^ 53")
  case True
  then show ?thesis by (simp add: addDays_def num_add_I)
next
  case False
  then have far: "2 ^ 53 \<le> \<bar>v + n\<bar>" by simp
  have "num_add (I v) (I n) = Fin (round64 (of_int (v + n)))" by (simp add: I_def)
  moreover have "9007199254740992 \<le> \<bar>v + n\<bar>" using far by simp
  then have "v + n < 366 \<or> 3652424 < v + n" by linarith
  moreover note round64_far [OF far]
  ultimately show ?thesis
    using far by (auto simp add: addDays_def new_CalendarDate_I)
      (auto simp add: new_CalendarDate_def I_def)
qed

lemma accessors_triple:
  assumes "366 \<le> v" "v \<le> 3652424"
    and "year (CalendarDate v) = y" "month (CalendarDate v) = I m" "day (CalendarDate v) = Inr (I d)"
  shows "1 \<le> y" "y \<le> 9999" "valid_triple y m d" "ordinalOf y m d = v"
proof -
  from triple_exists [OF assms(1,2)] obtain Y M D
    where Y: "1 \<le> Y" "Y \<le> 9999" "valid_triple Y M D" "ordinalOf Y M D = v" by blast
  have "Y = y" using year_ordinalOf [OF Y(1-3)] assms(3) by (simp add: Y(4))
  moreover have "M = m" using month_ordinalOf [OF Y(1-3)] assms(4) by (simp add: Y(4))
  moreover have "D = d" using day_ordinalOf [OF Y(1-3)] assms(5) by (simp add: Y(4))
  ultimately show "1 \<le> y" "y \<le> 9999" "valid_triple y m d" "ordinalOf y m d = v"
    using Y by simp_all
qed

lemma create_valid:
  assumes "1 \<le> y" "y \<le> 9999" "valid_triple y m d"
  shows "create (I y) (I m) (I d) = Inr (CalendarDate (ordinalOf y m d))"
proof -
  from assms(3) have m: "1 \<le> m" "m \<le> 12" and d: "1 \<le> d" "d \<le> month_length y m"
    by (simp_all add: valid_triple_def)
  show ?thesis
    using assms(1,2) m d ordinal_range [OF assms] by (simp add: create_I)
qed

lemma addYears_I:
  assumes "1 \<le> y" "y \<le> 9999" "valid_triple y m d" "\<bar>y + n\<bar> < 2 ^ 53"
  shows "addYears (CalendarDate (ordinalOf y m d)) (I n) =
           (if m = 2 \<and> d = 29 \<and> \<not> leap (y + n) then create (I (y + n)) (I 3) (I 1)
            else create (I (y + n)) (I m) (I d))"
proof -
  have ny: "num_add (I y) (I n) = I (y + n)" using assms(4) by (rule num_add_I)
  have m3: "num_add (I 2) (I 1) = I 3" by (simp add: num_add_I)
  have yr: "year (CalendarDate (ordinalOf y m d)) = y" using assms(1-3) by (rule year_ordinalOf)
  have mo: "month (CalendarDate (ordinalOf y m d)) = I m" using assms(1-3) by (rule month_ordinalOf)
  have da: "day (CalendarDate (ordinalOf y m d)) = Inr (I d)" using assms(1-3) by (rule day_ordinalOf)
  show ?thesis
    unfolding addYears_def Let_def yr mo da ny by (auto simp add: isLeapYear_I m3)
qed

lemma date_2000_02_29:
  "create (I 2000) (I 2) (I 29) = Inr (CalendarDate 730544)"
  "year (CalendarDate 730544) = 2000" "month (CalendarDate 730544) = I 2"
  "day (CalendarDate 730544) = Inr (I 29)"
proof -
  have v: "valid_triple 2000 2 29" "ordinalOf 2000 2 29 = 730544"
    by (simp_all add: valid_triple_def month_length_def leap_def ordinalOf_def jan1_def
        cumulativeDaysBeforeMonth_def)
  show "create (I 2000) (I 2) (I 29) = Inr (CalendarDate 730544)"
    using create_valid [of 2000 2 29] v by simp
  show "year (CalendarDate 730544) = 2000" using year_ordinalOf [of 2000 2 29] v by simp
  show "month (CalendarDate 730544) = I 2" using month_ordinalOf [of 2000 2 29] v by simp
  show "day (CalendarDate 730544) = Inr (I 29)" using day_ordinalOf [of 2000 2 29] v by simp
qed

lemma Math_max_I: "Math_max (I a) (I b) = I (max a b)"
  by (simp add: I_def max_def)

lemma addMonths_I:
  assumes "1 \<le> y" "y \<le> 9999" "valid_triple y m d"
    and "0 \<le> y * 12 + (m - 1) + n" "y * 12 + (m - 1) + n \<le> 12000000"
  defines "idx \<equiv> y * 12 + (m - 1) + n"
  shows "addMonths (CalendarDate (ordinalOf y m d)) (I n) =
           create (I (idx div 12)) (I (idx mod 12 + 1))
             (I (min d (month_length (idx div 12) (idx mod 12 + 1))))"
proof -
  from assms(3) have m: "1 \<le> m" "m \<le> 12" and d: "1 \<le> d" "d \<le> month_length y m"
    by (simp_all add: valid_triple_def)
  have d31: "d \<le> 31" using d by (simp add: month_length_def split: if_splits)
  have i: "0 \<le> idx" "idx \<le> 12000000" using assms(4,5) by (simp_all add: idx_def)
  have yr: "year (CalendarDate (ordinalOf y m d)) = y" using assms(1-3) by (rule year_ordinalOf)
  have mo: "month (CalendarDate (ordinalOf y m d)) = I m" using assms(1-3) by (rule month_ordinalOf)
  have da: "day (CalendarDate (ordinalOf y m d)) = Inr (I d)" using assms(1-3) by (rule day_ordinalOf)
  have cm: "num_sub (num_add (num_mul (I y) (I 12)) (I m)) (I 1) = I (y * 12 + m - 1)"
    using assms(1,2) m by (simp add: num_mul_I num_add_I num_sub_I)
  have "num_add (I (y * 12 + m - 1)) (I n) = I (y * 12 + m - 1 + n)"
    using i by (intro num_add_I) (simp add: idx_def)
  then have s: "num_add (I (y * 12 + m - 1)) (I n) = I idx" by (simp add: idx_def)
  have ny: "ToInt32 (num_div (I idx) (I 12)) = idx div 12"
    using i by (intro ToInt32_div) simp_all
  have nm0: "0 \<le> idx mod 12" "idx mod 12 < 12" by simp_all
  have nm: "num_add (num_rem (I idx) (I 12)) (I 1) = I (idx mod 12 + 1)"
    using i nm0 by (simp add: num_rem_I num_add_I)
  define dim where "dim = month_length (idx div 12) (idx mod 12 + 1)"
  have dim: "28 \<le> dim" "dim \<le> 31" by (simp_all add: dim_def month_length_def)
  have md: "daysInMonth (I (idx div 12)) (I (idx mod 12 + 1)) = I dim"
    using nm0 by (simp add: daysInMonth_I dim_def)
  have ov: "Math_max (I 0) (num_sub (I d) (I dim)) = I (max 0 (d - dim))"
    using d d31 dim by (simp add: num_sub_I Math_max_I)
  have "num_sub (I d) (I (max 0 (d - dim))) = I (d - max 0 (d - dim))"
    using d d31 dim by (intro num_sub_I) simp
  also have "d - max 0 (d - dim) = min d dim" by simp
  finally have dd: "num_sub (I d) (I (max 0 (d - dim))) = I (min d dim)" .
  show ?thesis
    unfolding addMonths_def Let_def yr mo da cm s ny nm md sum.case ov dd
    by (simp only: dim_def)
qed

lemma date_2000_12_31:
  "create (I 2000) (I 12) (I 31) = Inr (CalendarDate 730850)"
  "year (CalendarDate 730850) = 2000" "month (CalendarDate 730850) = I 12"
  "day (CalendarDate 730850) = Inr (I 31)"
proof -
  have v: "valid_triple 2000 12 31" "ordinalOf 2000 12 31 = 730850"
    by (simp_all add: valid_triple_def month_length_def leap_def ordinalOf_def jan1_def
        cumulativeDaysBeforeMonth_def)
  show "create (I 2000) (I 12) (I 31) = Inr (CalendarDate 730850)"
    using create_valid [of 2000 12 31] v by simp
  show "year (CalendarDate 730850) = 2000" using year_ordinalOf [of 2000 12 31] v by simp
  show "month (CalendarDate 730850) = I 12" using month_ordinalOf [of 2000 12 31] v by simp
  show "day (CalendarDate 730850) = Inr (I 31)" using day_ordinalOf [of 2000 12 31] v by simp
qed

section \<open>Parsing and printing\<close>

lemma radixValue_snoc:
  "radixValue r (ds @ [c]) = r * radixValue r ds + the (digitValue c)"
  by (simp add: radixValue_def)

lemma radixValue_Nil [simp]: "radixValue r [] = 0"
  by (simp add: radixValue_def)

lemma digitValue_digit: "isDigit c \<Longrightarrow> digitValue c = Some (c - 48)"
  by (simp add: isDigit_def digitValue_def)

lemma isDigit_code: "d < 10 \<Longrightarrow> isDigit (48 + d)" "d < 10 \<Longrightarrow> digitValue (48 + d) = Some d"
  by (simp_all add: isDigit_def digitValue_def)

lemma digits_of_digits: "list_all isDigit (digits_of n)"
  by (induction n rule: digits_of.induct) (subst digits_of.simps, simp add: isDigit_code)

lemma digits_of_nonempty: "digits_of n \<noteq> []"
  by (subst digits_of.simps) simp

lemma radixValue_digits_of: "radixValue 10 (digits_of n) = n"
proof (induction n rule: digits_of.induct)
  case (1 n)
  show ?case
  proof (cases "n < 10")
    case True
    then show ?thesis
      by (subst digits_of.simps) (simp add: radixValue_def isDigit_code)
  next
    case False
    then show ?thesis
      using 1 by (subst digits_of.simps) (simp add: radixValue_snoc isDigit_code)
  qed
qed

lemma length_digits_of: "n < 10 ^ k \<Longrightarrow> 0 < k \<Longrightarrow> length (digits_of n) \<le> k"
proof (induction n arbitrary: k rule: digits_of.induct)
  case (1 n)
  show ?case
  proof (cases "n < 10")
    case True
    then show ?thesis using 1(3) by (subst digits_of.simps) simp
  next
    case False
    then obtain j where k: "k = Suc j" "0 < j"
      using 1(2,3) by (cases k; cases "k - 1") auto
    have "n div 10 < 10 ^ j" using 1(2) k by (simp add: less_mult_imp_div_less mult.commute)
    with 1(1) [OF False _ k(2)] have "length (digits_of (n div 10)) \<le> j" by simp
    then show ?thesis using False k by (subst digits_of.simps) simp
  qed
qed

lemma radixValue_less: "list_all isDigit ds \<Longrightarrow> radixValue 10 ds < 10 ^ length ds"
proof (induction ds rule: rev_induct)
  case Nil
  then show ?case by simp
next
  case (snoc c ds)
  then have "radixValue 10 ds < 10 ^ length ds" and c: "isDigit c" by simp_all
  then have "10 * radixValue 10 ds + 10 \<le> 10 * 10 ^ length ds" by simp
  moreover have "c - 48 < 10" using c by (auto simp: isDigit_def)
  ultimately show ?case using c by (simp add: radixValue_snoc digitValue_digit)
qed

lemma digit_string_inj:
  assumes "list_all isDigit a" "list_all isDigit b" "length a = length b"
    and "radixValue 10 a = radixValue 10 b"
  shows "a = b"
  using assms
proof (induction a arbitrary: b rule: rev_induct)
  case Nil
  then show ?case by simp
next
  case (snoc c a)
  then obtain d b' where b: "b = b' @ [d]" by (cases b rule: rev_cases) auto
  from snoc.prems b have dg: "isDigit c" "isDigit d" "list_all isDigit a" "list_all isDigit b'"
    and len: "length a = length b'" by simp_all
  have cd: "c - 48 < 10" "d - 48 < 10" "48 \<le> c" "48 \<le> d" using dg by (auto simp: isDigit_def)
  have eq: "10 * radixValue 10 a + (c - 48) = 10 * radixValue 10 b' + (d - 48)"
    using snoc.prems(4) dg by (simp add: b radixValue_snoc digitValue_digit)
  then have "c - 48 = d - 48" "radixValue 10 a = radixValue 10 b'" using cd by presburger+
  then have "c = d" "a = b'" using cd snoc.IH [OF dg(3,4) len] by simp_all
  then show ?case by (simp add: b)
qed

lemma leading_zeros: "radixValue 10 (replicate j 48 @ ds) = radixValue 10 ds"
proof -
  have "foldl (\<lambda>a c. 10 * a + the (digitValue c)) 0 (replicate j 48) = 0"
    by (induction j) (simp_all add: replicate_append_same [symmetric] digitValue_def)
  then show ?thesis by (simp add: radixValue_def)
qed

lemma padStart_zero:
  "padStart s k (str ''0'') = replicate (k - length s) 48 @ s"
  by (simp add: padStart_def str_simps)

lemma pad_digits:
  assumes "n < 10 ^ k" "0 < k"
  shows "length (padStart (digits_of n) k (str ''0'')) = k"
    and "list_all isDigit (padStart (digits_of n) k (str ''0''))"
    and "radixValue 10 (padStart (digits_of n) k (str ''0'')) = n"
  using length_digits_of [OF assms] digits_of_digits [of n]
  by (auto simp add: padStart_zero leading_zeros radixValue_digits_of list_all_iff isDigit_def)

lemma pad_radixValue:
  assumes "list_all isDigit ds" "ds \<noteq> []"
  shows "padStart (digits_of (radixValue 10 ds)) (length ds) (str ''0'') = ds"
proof -
  have k: "0 < length ds" using assms by simp
  note p = pad_digits [OF radixValue_less [OF assms(1)] k]
  show ?thesis using p assms(1) by (intro digit_string_inj) simp_all
qed

lemma digit_not_space: "isDigit c \<Longrightarrow> \<not> isStrWhiteSpaceChar c"
  by (auto simp: isDigit_def isStrWhiteSpaceChar_def)

lemma trim_digits:
  assumes "list_all isDigit ds"
  shows "rev (dropWhile isStrWhiteSpaceChar (rev (dropWhile isStrWhiteSpaceChar ds))) = ds"
proof (cases ds rule: rev_cases)
  case Nil
  then show ?thesis by simp
next
  case (snoc xs x)
  have 1: "dropWhile isStrWhiteSpaceChar ds = ds"
    using assms by (cases ds) (simp_all add: digit_not_space)
  have "\<not> isStrWhiteSpaceChar x" using assms snoc by (simp add: digit_not_space)
  then have "dropWhile isStrWhiteSpaceChar (rev ds) = rev ds" by (simp add: snoc)
  then show ?thesis by (simp only: 1 rev_rev_ident)
qed

lemma signOf_digits: "list_all isDigit ds \<Longrightarrow> signOf ds = (1, ds)"
  by (cases ds) (auto simp: signOf_def isDigit_def)

lemma NonDecimal_digits: "list_all isDigit ds \<Longrightarrow> NonDecimalIntegerLiteral ds = None"
  by (auto simp: NonDecimalIntegerLiteral_def isDigit_def split: list.splits)

lemma takeWhile_digits: "list_all isDigit ds \<Longrightarrow> takeWhile isDigit ds = ds"
  and dropWhile_digits: "list_all isDigit ds \<Longrightarrow> dropWhile isDigit ds = []"
  by (simp_all add: list_all_iff)

lemma StringToNumber_digits:
  assumes "list_all isDigit ds" "ds \<noteq> []" "length ds \<le> 15"
  shows "StringToNumber ds = I (int (radixValue 10 ds))"
proof -
  have "radixValue 10 ds < 10 ^ length ds" using assms(1) by (rule radixValue_less)
  also have "\<dots> \<le> 10 ^ 15" using assms(3) by (intro power_increasing) simp_all
  finally have "\<bar>int (radixValue 10 ds)\<bar> < 2 ^ 53" by simp
  then have r: "round64 (of_int (int (radixValue 10 ds))) = of_int (int (radixValue 10 ds))"
    by (rule round64_of_int)
  have "StrDecimalLiteral ds = I (int (radixValue 10 ds))"
    using assms(2) r
    by (simp add: StrDecimalLiteral_def signOf_digits [OF assms(1)] takeWhile_digits [OF assms(1)]
        dropWhile_digits [OF assms(1)] I_def)
  then show ?thesis
    using assms(2)
    by (simp add: StringToNumber_def trim_digits [OF assms(1)] NonDecimal_digits [OF assms(1)])
qed

lemma parseInt10_digits:
  assumes "list_all isDigit ds" "ds \<noteq> []" "length ds \<le> 15"
  shows "parseInt10 ds = I (int (radixValue 10 ds))"
proof -
  have "radixValue 10 ds < 10 ^ length ds" using assms(1) by (rule radixValue_less)
  also have "\<dots> \<le> 10 ^ 15" using assms(3) by (intro power_increasing) simp_all
  finally have "\<bar>int (radixValue 10 ds)\<bar> < 2 ^ 53" by simp
  then have r: "round64 (of_int (int (radixValue 10 ds))) = of_int (int (radixValue 10 ds))"
    by (rule round64_of_int)
  have 1: "dropWhile isStrWhiteSpaceChar ds = ds"
    using assms by (cases ds) (simp_all add: digit_not_space)
  show ?thesis
    using assms(2) r
    by (simp add: parseInt10_def 1 signOf_digits [OF assms(1)] takeWhile_digits [OF assms(1)] I_def)
qed

lemma NumberToString_I:
  assumes "0 \<le> n" "n < 10 ^ 21"
  shows "NumberToString (I n) = digits_of (nat n)"
proof -
  have "\<bar>of_int n :: rat\<bar> < 10 ^ 21"
    using assms by (metis abs_of_nonneg of_int_0_le_iff of_int_less_iff of_int_numeral of_int_power)
  then show ?thesis using assms by (simp add: NumberToString_def I_def)
qed

lemma zero_pad_props:
  assumes "0 \<le> n" "n < 10 ^ k" "0 < k"
  shows "length (zero_pad k n) = k" "list_all isDigit (zero_pad k n)"
    "radixValue 10 (zero_pad k n) = nat n" "zero_pad k n \<noteq> []"
    "zero_pad k n = padStart (digits_of (nat n)) k (str ''0'')"
proof -
  have n: "nat n < 10 ^ k" using assms by (simp add: nat_less_iff)
  show e: "zero_pad k n = padStart (digits_of (nat n)) k (str ''0'')"
    by (simp add: zero_pad_def padStart_zero)
  show "length (zero_pad k n) = k" "list_all isDigit (zero_pad k n)"
    "radixValue 10 (zero_pad k n) = nat n"
    unfolding e using pad_digits [OF n assms(3)] by simp_all
  then show "zero_pad k n \<noteq> []" using assms(3) by auto
qed

lemma two_digits:
  assumes "0 \<le> m" "m < 100"
  shows "(if num_lt (I m) (I 10) then str ''-0'' else str ''-'') @ NumberToString (I m)
           = str ''-'' @ zero_pad 2 m"
proof (cases "m < 10")
  case True
  then have "digits_of (nat m) = [48 + nat m]"
    using assms by (subst digits_of.simps) (simp add: nat_less_iff)
  then show ?thesis using True assms by (simp add: NumberToString_I zero_pad_def str_simps)
next
  case False
  have "length (digits_of (nat m)) \<le> 2"
    using assms by (intro length_digits_of) (simp_all add: nat_less_iff)
  moreover have "digits_of (nat m) = digits_of (nat m div 10) @ [48 + nat m mod 10]"
    using False assms by (subst digits_of.simps) (simp add: nat_less_iff)
  then have "2 \<le> length (digits_of (nat m))"
    using digits_of_nonempty [of "nat m div 10"]
    by (cases "digits_of (nat m div 10)") simp_all
  ultimately have "length (digits_of (nat m)) = 2" by simp
  then show ?thesis using False assms by (simp add: NumberToString_I zero_pad_def)
qed

lemma toString_ordinalOf:
  assumes "1 \<le> y" "y \<le> 9999" "valid_triple y m d"
  shows "toString (CalendarDate (ordinalOf y m d)) = Inr (iso_format y m d)"
proof -
  from assms(3) have m: "1 \<le> m" "m \<le> 12" and d: "1 \<le> d" "d \<le> month_length y m"
    by (simp_all add: valid_triple_def)
  have d31: "d \<le> 31" using d by (simp add: month_length_def split: if_splits)
  have yr: "year (CalendarDate (ordinalOf y m d)) = y" using assms by (rule year_ordinalOf)
  have mo: "month (CalendarDate (ordinalOf y m d)) = I m" using assms by (rule month_ordinalOf)
  have da: "day (CalendarDate (ordinalOf y m d)) = Inr (I d)" using assms by (rule day_ordinalOf)
  have Y: "padStart (NumberToString (I y)) 4 (str ''0'') = zero_pad 4 y"
    using assms(1,2) by (simp add: NumberToString_I zero_pad_props(5))
  have M: "(if num_lt (I m) (I 10) then str ''-0'' else str ''-'') @ NumberToString (I m)
           = str ''-'' @ zero_pad 2 m" using m by (intro two_digits) simp_all
  have D: "(if num_lt (I d) (I 10) then str ''-0'' else str ''-'') @ NumberToString (I d)
           = str ''-'' @ zero_pad 2 d" using d d31 by (intro two_digits) simp_all
  show ?thesis
    unfolding toString_def Let_def yr mo da sum.case Y iso_format_def
    using M D by simp
qed

lemma fromString_fields:
  assumes "list_all isDigit Y" "length Y = 4" "list_all isDigit M" "length M = 2"
    "list_all isDigit D" "length D = 2"
  shows "fromString (Y @ str ''-'' @ M @ str ''-'' @ D)
           = create (I (int (radixValue 10 Y))) (I (int (radixValue 10 M))) (I (int (radixValue 10 D)))"
proof -
  define s where "s = Y @ str ''-'' @ M @ str ''-'' @ D"
  have len: "length s = 10" using assms by (simp add: s_def str_simps)
  have c: "charAt s 4 = str ''-''" "charAt s 7 = str ''-''"
    using assms by (simp_all add: s_def charAt_def str_simps nth_append)
  have f: "substring s 0 4 = Y" "substring s 5 7 = M" "substring s 8 10 = D"
    using assms by (simp_all add: s_def substring_def str_simps)
  have ne: "Y \<noteq> []" "M \<noteq> []" "D \<noteq> []" using assms by auto
  have e: "extractInt s 0 4 = I (int (radixValue 10 Y))"
    "extractInt s 5 2 = I (int (radixValue 10 M))"
    "extractInt s 8 2 = I (int (radixValue 10 D))"
    using assms ne by (simp_all add: extractInt_def f StringToNumber_digits)
  show ?thesis
    unfolding s_def [symmetric] fromString_def Let_def
    by (simp add: len c e create_def)
qed

lemma canonical_split:
  assumes "canonical_format s"
  obtains Y M D where "s = Y @ str ''-'' @ M @ str ''-'' @ D"
    "list_all isDigit Y" "length Y = 4" "list_all isDigit M" "length M = 2"
    "list_all isDigit D" "length D = 2"
proof -
  from assms have len: "length s = 10" by (simp add: canonical_format_def)
  have s4: "s ! 4 = 45" "s ! 7 = 45"
    using assms len by (simp_all add: canonical_format_def charAt_def str_simps)
  have "s = take 4 s @ drop 4 s" by simp
  also have "drop 4 s = s ! 4 # drop 5 s" using len by (simp add: Cons_nth_drop_Suc [symmetric])
  also have "drop 5 s = take 2 (drop 5 s) @ drop 2 (drop 5 s)"
    by (rule append_take_drop_id [symmetric])
  also have "drop 2 (drop 5 s) = drop 7 s" by simp
  also have "drop 7 s = s ! 7 # drop 8 s" using len by (simp add: Cons_nth_drop_Suc [symmetric])
  finally have e: "s = take 4 s @ str ''-'' @ take 2 (drop 5 s) @ str ''-'' @ drop 8 s"
    by (simp add: s4 str_simps)
  show ?thesis
    using assms len
    by (intro that [OF e]) (simp_all add: canonical_format_def substring_def)
qed

lemma num_NaN [simp]:
  "num_add x NaN = NaN" "num_add NaN x = NaN" "num_sub x NaN = NaN" "num_sub NaN x = NaN"
  by (cases x; simp)+

lemma MONTH_SUMS_bad:
  assumes "m < 1 \<or> 12 < m"
  shows "array_get MONTH_SUMS_NORMAL_YEAR (I m) = NaN"
proof (cases "m = 0")
  case True
  then show ?thesis by (simp add: array_get_def MONTH_SUMS_NORMAL_YEAR_def I_def)
next
  case False
  with assms have "m < 0 \<or> 13 \<le> m" by linarith
  then show ?thesis by (auto simp add: array_get_def MONTH_SUMS_NORMAL_YEAR_def I_def)
qed

lemma create_bad_month:
  assumes "m < 1 \<or> 12 < m"
  shows "create x (I m) z = Inl DayOutOfRange \<or> create x (I m) z = Inl NonIntegerValue"
proof -
  have "tripletToDaysValue x (I m) z = Inl DayOutOfRange \<or> tripletToDaysValue x (I m) z = Inr NaN"
    by (simp add: tripletToDaysValue_def MONTH_SUMS_bad [OF assms] Let_def)
  moreover have "new_CalendarDate NaN = Inl NonIntegerValue" by (simp add: new_CalendarDate_def)
  ultimately show ?thesis by (auto simp: create_def)
qed

lemma create_Inr:
  assumes "0 \<le> y" "y \<le> 9999" and "create (I y) (I m) (I d) = Inr dt"
  shows "1 \<le> y" "valid_triple y m d" "dt = CalendarDate (ordinalOf y m d)"
proof -
  have "\<not> (m < 1 \<or> 12 < m)"
  proof
    assume "m < 1 \<or> 12 < m"
    from create_bad_month [OF this, of "I y" "I d"] assms(3) show False by auto
  qed
  then have m: "1 \<le> m" "m \<le> 12" by simp_all
  have c: "create (I y) (I m) (I d) =
           (if d \<le> 0 \<or> month_length y m < d then Inl DayOutOfRange
            else if ordinalOf y m d < 366 \<or> 3652424 < ordinalOf y m d then Inl ValueOutOfRange
            else Inr (CalendarDate (ordinalOf y m d)))"
    using assms(1,2) m by (intro create_I) simp_all
  from c assms(3) have d: "1 \<le> d" "d \<le> month_length y m" and r: "366 \<le> ordinalOf y m d"
    and dt: "dt = CalendarDate (ordinalOf y m d)"
    by (auto split: if_splits)
  show v: "valid_triple y m d" using m d by (simp add: valid_triple_def)
  show "dt = CalendarDate (ordinalOf y m d)" by (rule dt)
  show "1 \<le> y"
  proof (rule ccontr)
    assume "\<not> 1 \<le> y"
    with assms(1) have "y = 0" by simp
    then have "ordinalOf y m d < 366" using ordinal_in_year(2) [OF v] by (simp add: jan1_1)
    with r show False by simp
  qed
qed

lemma round64_numeral:
  "numeral n < (2 ^ 53 :: int) \<Longrightarrow> round64 (numeral n) = numeral n"
  "round64 0 = 0" "round64 1 = 1"
  using round64_of_int [of "numeral n"] round64_of_int [of 0] round64_of_int [of 1] by simp_all

lemmas parse_simps = extractInt_def StringToNumber_def StrDecimalLiteral_def
  NonDecimalIntegerLiteral_def signOf_def isStrWhiteSpaceChar_def isDigit_def radixValue_def
  digitValue_def substring_def charAt_def str_simps Let_def round64_numeral I_def

lemma tripletToDaysValue_bad_month:
  assumes "m < 1 \<or> 12 < m"
  shows "tripletToDaysValue x (I m) z =
           (if num_le z (I 0) \<or> num_lt (daysInMonth x (I m)) z then Inl DayOutOfRange else Inr NaN)"
    and "tripletToDaysValue_v0 x (I m) z =
           (if num_le z (I 0) \<or> num_lt (daysInMonth x (I m)) z then Inl DayOutOfRange else Inr NaN)"
  by (simp_all add: tripletToDaysValue_def tripletToDaysValue_v0_def MONTH_SUMS_bad [OF assms] Let_def)

lemma tripletToDaysValue_v0_I:
  assumes y: "0 \<le> y" "y \<le> 1000000" and m: "1 \<le> m" "m \<le> 12"
  shows "tripletToDaysValue_v0 (I y) (I m) (I d) =
           (if d \<le> 0 \<or> month_length y m < d then Inl DayOutOfRange
            else Inr (I (ordinalOf y m d)))"
proof (cases "d \<le> 0 \<or> month_length y m < d")
  case True
  then show ?thesis using m by (simp add: tripletToDaysValue_v0_def daysInMonth_I)
next
  case False
  then have d: "1 \<le> d" "d \<le> 31" by (auto simp: month_length_def split: if_splits)
  note c = cumulativeDaysBeforeMonth_bounds [OF m]
  note j = jan1_bounds [OF y]
  define b :: int where "b = (if leap y \<and> 2 < m then 1 else 0)"
  have b: "0 \<le> b" "b \<le> 1" by (simp_all add: b_def)
  have 1: "num_add (I (jan1 y)) (I (cumulativeDaysBeforeMonth m))
             = I (jan1 y + cumulativeDaysBeforeMonth m)"
    using c j by (simp add: num_add_I)
  have 2: "(if isLeapYear (I y) \<and> num_lt (I 2) (I m)
            then num_add (I (jan1 y + cumulativeDaysBeforeMonth m)) (I 1)
            else I (jan1 y + cumulativeDaysBeforeMonth m))
           = I (jan1 y + cumulativeDaysBeforeMonth m + b)"
    using c j by (simp add: num_add_I isLeapYear_I b_def)
  have 3: "num_sub (I d) (I 1) = I (d - 1)" using d by (simp add: num_sub_I)
  have 4: "num_add (I (jan1 y + cumulativeDaysBeforeMonth m + b)) (I (d - 1))
           = I (jan1 y + cumulativeDaysBeforeMonth m + b + (d - 1))"
    using c j b d by (intro num_add_I) simp
  have "tripletToDaysValue_v0 (I y) (I m) (I d)
          = Inr (I (jan1 y + cumulativeDaysBeforeMonth m + b + (d - 1)))"
    using False m
    unfolding tripletToDaysValue_v0_def Let_def yearStart_I [OF y] MONTH_SUMS_I [OF m] 1 2 3 4
    by (simp add: daysInMonth_I)
  then show ?thesis using False by (simp add: ordinalOf_def b_def)
qed

lemma tripletToDaysValue_v0_eq:
  assumes "0 \<le> y" "y \<le> 1000000"
  shows "tripletToDaysValue_v0 (I y) (I m) (I d) = tripletToDaysValue (I y) (I m) (I d)"
proof (cases "1 \<le> m \<and> m \<le> 12")
  case True
  then show ?thesis using assms by (simp add: tripletToDaysValue_v0_I tripletToDaysValue_I)
next
  case False
  then have "m < 1 \<or> 12 < m" by linarith
  then show ?thesis by (simp add: tripletToDaysValue_bad_month)
qed

lemma digits_sub:
  assumes "list_all isDigit s"
  shows "list_all isDigit (take n s)" "list_all isDigit (drop n s)"
  using assms by (auto simp: list_all_iff dest: in_set_takeD in_set_dropD)

lemma fromString_digits8:
  assumes "list_all isDigit s" "length s = 8"
  defines "y \<equiv> int (radixValue 10 (take 4 s))"
    and "m \<equiv> int (radixValue 10 (take 2 (drop 4 s)))"
    and "d \<equiv> int (radixValue 10 (drop 6 s))"
  shows "fromString s = create (I y) (I m) (I d)"
    and "fromString_v0 s = create (I y) (I m) (I d)"
    and "0 \<le> y" "y \<le> 9999"
proof -
  have f: "substring s 0 4 = take 4 s" "substring s 4 6 = take 2 (drop 4 s)"
    "substring s 6 8 = drop 6 s"
    using assms(2) by (simp_all add: substring_def)
  have dg: "list_all isDigit (take 4 s)" "list_all isDigit (take 2 (drop 4 s))"
    "list_all isDigit (drop 6 s)"
    using assms(1) by (simp_all add: digits_sub)
  have ne: "take 4 s \<noteq> []" "take 2 (drop 4 s) \<noteq> []" "drop 6 s \<noteq> []"
    using assms(2) by auto
  have ln: "length (take 4 s) \<le> 15" "length (take 2 (drop 4 s)) \<le> 15" "length (drop 6 s) \<le> 15"
    using assms(2) by simp_all
  have e: "extractInt s 0 4 = I y" "extractInt s 4 2 = I m" "extractInt s 6 2 = I d"
    using dg ne ln by (simp_all add: extractInt_def f StringToNumber_digits y_def m_def d_def)
  have e0: "extractInt_v0 s 0 (Some 4) = I y" "extractInt_v0 s 4 None = I m"
    "extractInt_v0 s 6 None = I d"
    using dg ne ln by (simp_all add: extractInt_v0_def f parseInt10_digits y_def m_def d_def)
  have "radixValue 10 (take 4 s) < 10 ^ length (take 4 s)" using dg(1) by (rule radixValue_less)
  then show yb: "0 \<le> y" "y \<le> 9999" using assms(2) by (simp_all add: y_def)
  show "fromString s = create (I y) (I m) (I d)"
    unfolding fromString_def Let_def using assms(2) by (simp add: e create_def)
  have s0: "s \<noteq> []" using assms(2) by auto
  have "parseInt10 s = I (int (radixValue 10 s))"
    using assms s0 by (intro parseInt10_digits) simp_all
  moreover have "radixValue 10 s < 10 ^ length s" using assms(1) by (rule radixValue_less)
  ultimately have "NumberToString (parseInt10 s) = digits_of (radixValue 10 s)"
    using assms(2) by (simp add: NumberToString_I)
  then have chk: "padStart (NumberToString (parseInt10 s)) 8 (str ''0'') = s"
    using pad_radixValue [OF assms(1) s0] by (simp add: assms(2))
  show "fromString_v0 s = create (I y) (I m) (I d)"
    unfolding fromString_v0_def Let_def using assms(2) yb
    by (simp add: e0 chk create_def tripletToDaysValue_v0_eq)
qed

lemma no_parse_error:
  "(case tripletToDaysValue y m d of Inl e \<Rightarrow> Inl e | Inr v \<Rightarrow> new_CalendarDate v)
      \<noteq> Inl ParseFormat"
  by (simp add: tripletToDaysValue_def new_CalendarDate_def Let_def)

lemma date_2016_01_01: "create (I 2016) (I 1) (I 1) = Inr (CalendarDate 736329)"
proof -
  have v: "valid_triple 2016 1 1" "ordinalOf 2016 1 1 = 736329"
    by (simp_all add: valid_triple_def month_length_def leap_def ordinalOf_def jan1_def
        cumulativeDaysBeforeMonth_def)
  then show ?thesis using create_valid [of 2016 1 1] by simp
qed

lemma plus_string:
  "length (str ''2016+1+1'') = 8" "\<not> list_all isDigit (str ''2016+1+1'')"
  "fromString (str ''2016+1+1'') = Inr (CalendarDate 736329)"
proof -
  show l: "length (str ''2016+1+1'') = 8" by (simp add: str_simps)
  show "\<not> list_all isDigit (str ''2016+1+1'')" by (simp add: str_simps isDigit_def)
  have "extractInt (str ''2016+1+1'') 0 4 = I 2016" "extractInt (str ''2016+1+1'') 4 2 = I 1"
    "extractInt (str ''2016+1+1'') 6 2 = I 1"
    by (simp_all add: parse_simps)
  then show "fromString (str ''2016+1+1'') = Inr (CalendarDate 736329)"
    unfolding fromString_def Let_def using l date_2016_01_01 by (simp add: create_def)
qed

lemma plus_string_v0: "fromString_v0 (str ''2016+1+1'') = Inl ParseFormat"
proof -
  have l: "length (str ''2016+1+1'') = 8" by (simp add: str_simps)
  have "parseInt10 (str ''2016+1+1'') = I 2016"
    by (simp add: parseInt10_def parse_simps)
  then have "NumberToString (parseInt10 (str ''2016+1+1'')) = str ''2016''"
    by (simp add: NumberToString_I digits_of.simps str_simps)
  then have "padStart (NumberToString (parseInt10 (str ''2016+1+1''))) 8 (str ''0'')
               \<noteq> str ''2016+1+1''"
    by (simp add: padStart_def str_simps)
  then show ?thesis
    unfolding fromString_v0_def Let_def using l by simp
qed

section \<open>The two variants of fromString\<close>

lemma trunc_abs_le: "\<bar>of_int (trunc x) :: rat\<bar> \<le> \<bar>x\<bar>"
proof (cases "0 \<le> x")
  case True
  then have "0 \<le> \<lfloor>x\<rfloor>" by simp
  then show ?thesis using True by (simp add: trunc_def)
next
  case False
  then have "0 \<le> \<lfloor>- x\<rfloor>" by simp
  moreover have "of_int \<lfloor>- x\<rfloor> \<le> - x" by (rule of_int_floor_le)
  ultimately show ?thesis using False by (simp add: trunc_def)
qed

lemma ToInt32_div_bound:
  assumes "\<bar>a\<bar> < 2 ^ 29" "0 < b"
  shows "\<bar>ToInt32 (num_div (I a) (I b))\<bar> \<le> 2 * \<bar>a\<bar>"
proof -
  define q :: rat where "q = of_int a / of_int b"
  define x where "x = round64 q"
  have b1: "(1::rat) \<le> of_int b" "(0::rat) < of_int b" using assms(2) by simp_all
  have "\<bar>of_int a :: rat\<bar> * 1 \<le> \<bar>of_int a\<bar> * of_int b"
    using b1 by (intro mult_left_mono) simp_all
  then have "\<bar>of_int a :: rat\<bar> / of_int b \<le> \<bar>of_int a\<bar>"
    using b1 by (simp add: pos_divide_le_eq)
  then have q: "\<bar>q\<bar> \<le> \<bar>of_int a\<bar>" using b1 by (simp add: q_def)
  have "\<bar>x - q\<bar> \<le> \<bar>q\<bar> / 9007199254740992"
    unfolding x_def using round64_err [of q] by simp
  then have "\<bar>x\<bar> \<le> 2 * \<bar>q\<bar>" by linarith
  then have "\<bar>of_int (trunc x) :: rat\<bar> \<le> 2 * \<bar>of_int a\<bar>"
    using trunc_abs_le [of x] q by linarith
  then have "(of_int \<bar>trunc x\<bar> :: rat) \<le> of_int (2 * \<bar>a\<bar>)" by simp
  then have t: "\<bar>trunc x\<bar> \<le> 2 * \<bar>a\<bar>" by (simp only: of_int_le_iff)
  have "2 * \<bar>a\<bar> < 2 ^ 31" using assms(1) by simp
  with t have "wrap32 (trunc x) = trunc x" by (intro wrap32_id) linarith+
  moreover have "b \<noteq> 0" using assms(2) by simp
  ultimately show ?thesis using t by (simp add: I_def x_def q_def)
qed

lemma yearStart_negative:
  assumes "- 999 \<le> y" "y \<le> - 100"
  shows "\<exists>w. yearStart (I y) = I w \<and> w \<le> - 30000 \<and> - 400000 \<le> w"
proof -
  define A where "A = ToInt32 (num_div (I (y + 3)) (I 4))"
  define B where "B = ToInt32 (num_div (I (y + 99)) (I 100))"
  define C where "C = ToInt32 (num_div (I (y + 399)) (I 400))"
  have "\<bar>A\<bar> \<le> 2 * \<bar>y + 3\<bar>" unfolding A_def using assms by (intro ToInt32_div_bound) simp_all
  moreover have "\<bar>y + 3\<bar> \<le> 1000" using assms by simp
  ultimately have A: "\<bar>A\<bar> \<le> 2000" by simp
  have "\<bar>B\<bar> \<le> 2 * \<bar>y + 99\<bar>" unfolding B_def using assms by (intro ToInt32_div_bound) simp_all
  moreover have "\<bar>y + 99\<bar> \<le> 1000" using assms by simp
  ultimately have B: "\<bar>B\<bar> \<le> 2000" by simp
  have "\<bar>C\<bar> \<le> 2 * \<bar>y + 399\<bar>" unfolding C_def using assms by (intro ToInt32_div_bound) simp_all
  moreover have "\<bar>y + 399\<bar> \<le> 1000" using assms by simp
  ultimately have C: "\<bar>C\<bar> \<le> 2000" by simp
  have s: "num_add (I y) (I 3) = I (y + 3)" "num_add (I y) (I 99) = I (y + 99)"
    "num_add (I y) (I 399) = I (y + 399)" "num_mul (I y) (I 365) = I (y * 365)"
    using assms by (simp_all add: num_add_I num_mul_I)
  have 1: "num_add (I (y * 365)) (I A) = I (y * 365 + A)"
    using assms A by (intro num_add_I) simp
  have 2: "num_sub (I (y * 365 + A)) (I B) = I (y * 365 + A - B)"
    using assms A B by (intro num_sub_I) simp
  have 3: "num_add (I (y * 365 + A - B)) (I C) = I (y * 365 + A - B + C)"
    using assms A B C by (intro num_add_I) simp
  have "yearStart (I y) = I (y * 365 + A - B + C)"
    unfolding yearStart_def s A_def [symmetric] B_def [symmetric] C_def [symmetric] 1 2 3 ..
  moreover have "y * 365 + A - B + C \<le> - 30000" "- 400000 \<le> y * 365 + A - B + C"
    using assms A B C by linarith+
  ultimately show ?thesis by blast
qed

lemma negative_year_fails:
  assumes "- 999 \<le> y" "y \<le> - 100" "0 \<le> d" "d \<le> 99"
  shows "\<exists>e. (case tripletToDaysValue_v0 (I y) (I m) (I d) of
                Inl e \<Rightarrow> Inl e | Inr v \<Rightarrow> new_CalendarDate v) = Inl e"
proof (cases "1 \<le> m \<and> m \<le> 12")
  case False
  then have "m < 1 \<or> 12 < m" by linarith
  then show ?thesis
    by (simp add: tripletToDaysValue_bad_month new_CalendarDate_def)
next
  case True
  then have m: "1 \<le> m" "m \<le> 12" by simp_all
  from yearStart_negative [OF assms(1,2)] obtain w
    where w: "yearStart (I y) = I w" "w \<le> - 30000" "- 400000 \<le> w" by blast
  note c = cumulativeDaysBeforeMonth_bounds [OF m]
  define b :: int where "b = (if leap y \<and> 2 < m then 1 else 0)"
  have b: "0 \<le> b" "b \<le> 1" by (simp_all add: b_def)
  have 1: "num_add (I w) (I (cumulativeDaysBeforeMonth m)) = I (w + cumulativeDaysBeforeMonth m)"
    using c w by (intro num_add_I) simp
  have 2: "(if isLeapYear (I y) \<and> num_lt (I 2) (I m)
            then num_add (I (w + cumulativeDaysBeforeMonth m)) (I 1)
            else I (w + cumulativeDaysBeforeMonth m))
           = I (w + cumulativeDaysBeforeMonth m + b)"
    using c w by (simp add: num_add_I isLeapYear_I b_def)
  have 3: "num_sub (I d) (I 1) = I (d - 1)" using assms by (simp add: num_sub_I)
  have 4: "num_add (I (w + cumulativeDaysBeforeMonth m + b)) (I (d - 1))
           = I (w + cumulativeDaysBeforeMonth m + b + (d - 1))"
    using c w b assms by (intro num_add_I) simp
  have "w + cumulativeDaysBeforeMonth m + b + (d - 1) < 366" using c w b assms by linarith
  then have "new_CalendarDate (I (w + cumulativeDaysBeforeMonth m + b + (d - 1)))
               = Inl ValueOutOfRange"
    by (simp add: new_CalendarDate_I)
  then show ?thesis
    unfolding tripletToDaysValue_v0_def Let_def w(1) MONTH_SUMS_I [OF m] 1 2 3 4
    by (simp split: if_splits)
qed

lemma signOf_cases:
  obtains "signOf t = (1, t)" "t = [] \<or> (hd t \<noteq> 45 \<and> hd t \<noteq> 43)"
  | r where "t = 45 # r" "signOf t = (- 1, r)"
  | r where "t = 43 # r" "signOf t = (1, r)"
  by (cases t) (auto simp: signOf_def)

lemma digits_of_hd: "0 < n \<Longrightarrow> hd (digits_of n) \<noteq> 48"
proof (induction n rule: digits_of.induct)
  case (1 n)
  show ?case
  proof (cases "n < 10")
    case True
    then show ?thesis using 1(2) by (subst digits_of.simps) simp
  next
    case False
    then have "0 < n div 10" by simp
    with 1(1) [OF False] have "hd (digits_of (n div 10)) \<noteq> 48" by simp
    then show ?thesis
      using False digits_of_nonempty [of "n div 10"] by (subst digits_of.simps) simp
  qed
qed

lemma parseInt10_minus:
  assumes "list_all isDigit ds" "ds \<noteq> []" "length ds \<le> 15"
  shows "parseInt10 (45 # ds) = I (- int (radixValue 10 ds))"
proof -
  have "radixValue 10 ds < 10 ^ length ds" using assms(1) by (rule radixValue_less)
  also have "\<dots> \<le> 10 ^ 15" using assms(3) by (intro power_increasing) simp_all
  finally have "\<bar>- int (radixValue 10 ds)\<bar> < 2 ^ 53" by simp
  then have r: "round64 (of_int (- int (radixValue 10 ds))) = of_int (- int (radixValue 10 ds))"
    by (rule round64_of_int)
  have "\<not> isStrWhiteSpaceChar 45" by (simp add: isStrWhiteSpaceChar_def)
  then show ?thesis
    using assms(2) r
    by (simp add: parseInt10_def signOf_def takeWhile_digits [OF assms(1)] I_def)
qed

lemma NumberToString_I_neg:
  assumes "n < 0" "- (10 ^ 21) < n"
  shows "NumberToString (I n) = 45 # digits_of (nat (- n))"
proof -
  have "\<bar>n\<bar> < 10 ^ 21" using assms by simp
  then have "\<bar>of_int n :: rat\<bar> < 10 ^ 21"
    by (metis of_int_abs of_int_less_iff of_int_numeral of_int_power)
  then show ?thesis using assms(1) by (simp add: NumberToString_def I_def)
qed

lemma reserialize_check:
  assumes len: "length s = 8"
    and chk: "padStart (NumberToString (parseInt10 s)) 8 (str ''0'') = s"
  shows "list_all isDigit s
     \<or> (\<exists>ds. s = 45 # ds \<and> list_all isDigit ds \<and> length ds = 7 \<and> hd ds \<noteq> 48)"
proof -
  define t where "t = dropWhile isStrWhiteSpaceChar s"
  obtain sgn r where sg: "signOf t = (sgn, r)" by (cases "signOf t")
  define z where "z = takeWhile isDigit r"
  have p: "parseInt10 s = (if z = [] then NaN else Fin (round64 (of_int (sgn * int (radixValue 10 z)))))"
    by (simp add: parseInt10_def t_def [symmetric] sg z_def)
  have sgn: "sgn = 1 \<or> sgn = - 1" and rlen: "length r \<le> length t"
    using sg by (cases t rule: signOf_cases; auto)+
  have "length t \<le> length s" unfolding t_def by (rule length_dropWhile_le)
  moreover have "length z \<le> length r" unfolding z_def by (rule length_takeWhile_le)
  ultimately have zlen: "length z \<le> 8" using rlen len by simp
  have zd: "list_all isDigit z" unfolding z_def by (simp add: list_all_iff) (meson set_takeWhileD)
  show ?thesis
  proof (cases "z = []")
    case True
    have "padStart (str ''NaN'') 8 (str ''0'') = str ''00000NaN''"
      by (simp add: padStart_def str_simps eval_nat_numeral)
    with True have s0: "s = str ''00000NaN''"
      using chk by (simp add: p NumberToString_def)
    have "t = s" by (simp add: t_def s0 str_simps isStrWhiteSpaceChar_def)
    moreover have "signOf s = (1, s)" by (simp add: s0 signOf_def str_simps)
    ultimately have "r = s" using sg by simp
    then have "z \<noteq> []" by (simp add: z_def s0 str_simps isDigit_def)
    with True show ?thesis by simp
  next
    case False
    define v where "v = radixValue 10 z"
    have "v < 10 ^ length z" unfolding v_def using zd by (rule radixValue_less)
    also have "\<dots> \<le> 10 ^ 8" using zlen by (intro power_increasing) simp_all
    finally have v: "v < 10 ^ 8" .
    then have "\<bar>sgn * int v\<bar> < 2 ^ 53" using sgn by auto
    then have "round64 (of_int (sgn * int v)) = of_int (sgn * int v)" by (rule round64_of_int)
    then have pI: "parseInt10 s = I (sgn * int v)" using False by (simp add: p v_def I_def)
    show ?thesis
    proof (cases "0 \<le> sgn * int v")
      case True
      then have "NumberToString (parseInt10 s) = digits_of (nat (sgn * int v))"
        using v sgn by (auto simp add: pI NumberToString_I)
      then have "s = replicate (8 - length (digits_of (nat (sgn * int v)))) 48
                       @ digits_of (nat (sgn * int v))"
        using chk by (simp add: padStart_zero)
      moreover have "list_all isDigit (replicate (8 - length (digits_of (nat (sgn * int v)))) 48
                       @ digits_of (nat (sgn * int v)))"
        using digits_of_digits [of "nat (sgn * int v)"] by (auto simp add: list_all_iff isDigit_def)
      ultimately have "list_all isDigit s" by simp
      then show ?thesis by simp
    next
      case neg: False
      then have s1: "sgn = - 1" and v0: "0 < v" using sgn by (auto simp: not_le)
      have "NumberToString (I (- int v)) = 45 # digits_of (nat (- (- int v)))"
        using v0 v by (intro NumberToString_I_neg) simp_all
      then have nts: "NumberToString (parseInt10 s) = 45 # digits_of v"
        by (simp add: pI s1)
      define k where "k = 8 - length (45 # digits_of v)"
      have e: "s = replicate k 48 @ 45 # digits_of v"
        using chk by (simp add: nts padStart_zero k_def)
      have "k = 0"
      proof (rule ccontr)
        assume "k \<noteq> 0"
        then obtain j where "k = Suc j" by (cases k) auto
        then have h: "s = 48 # (replicate j 48 @ 45 # digits_of v)" by (simp add: e)
        then have "t = s" by (simp add: t_def isStrWhiteSpaceChar_def)
        then have "sgn = 1" using sg h by (simp add: signOf_def)
        with s1 show False by simp
      qed
      then have e0: "s = 45 # digits_of v" by (simp add: e)
      then have "length (digits_of v) = 7" using len by simp
      then show ?thesis
        using e0 digits_of_digits [of v] digits_of_hd [OF v0] by blast
    qed
  qed
qed

lemma fromString_v0_accepts:
  assumes len: "length s = 8" and acc: "fromString_v0 s = Inr dt"
  shows "list_all isDigit s"
proof -
  have chk: "padStart (NumberToString (parseInt10 s)) 8 (str ''0'') = s"
  proof (rule ccontr)
    assume "\<not> ?thesis"
    then have "fromString_v0 s = Inl ParseFormat"
      using len by (simp add: fromString_v0_def Let_def)
    with acc show False by simp
  qed
  from reserialize_check [OF len chk] show ?thesis
  proof
    assume "\<exists>ds. s = 45 # ds \<and> list_all isDigit ds \<and> length ds = 7 \<and> hd ds \<noteq> 48"
    then obtain ds where s: "s = 45 # ds" and dg: "list_all isDigit ds"
      and l7: "length ds = 7" and hd: "hd ds \<noteq> 48" by blast
    from l7 obtain a b c rest where ds: "ds = a # b # c # rest" and lr: "length rest = 4"
      by (cases ds; cases "tl ds"; cases "tl (tl ds)") auto
    have abc: "isDigit a" "isDigit b" "isDigit c" "list_all isDigit rest"
      using dg by (simp_all add: ds)
    define y where "y = - int (radixValue 10 [a, b, c])"
    define da db dc where "da = a - 48" and "db = b - 48" and "dc = c - 48"
    have "49 \<le> a" using hd abc(1) by (simp add: ds isDigit_def)
    then have dv: "1 \<le> da" "da \<le> 9" "db \<le> 9" "dc \<le> 9"
      using abc(1-3) by (auto simp: isDigit_def da_def db_def dc_def)
    have "radixValue 10 [a, b, c] = 10 * (10 * da + db) + dc"
      using abc(1-3) by (simp add: radixValue_def digitValue_digit da_def db_def dc_def)
    then have "100 \<le> radixValue 10 [a, b, c]" "radixValue 10 [a, b, c] \<le> 999"
      using dv by simp_all
    then have y: "- 999 \<le> y" "y \<le> - 100" by (simp_all add: y_def)
    have f: "substring s 0 4 = 45 # [a, b, c]" "substring s 4 6 = take 2 rest"
      "substring s 6 8 = drop 2 rest"
      using lr by (simp_all add: substring_def s ds)
    have e1: "extractInt_v0 s 0 (Some 4) = I y"
      using abc by (simp add: extractInt_v0_def f(1) parseInt10_minus y_def)
    define m where "m = int (radixValue 10 (take 2 rest))"
    define d where "d = int (radixValue 10 (drop 2 rest))"
    have ne: "take 2 rest \<noteq> []" "drop 2 rest \<noteq> []" using lr by auto
    have e2: "extractInt_v0 s 4 None = I m" "extractInt_v0 s 6 None = I d"
      using lr abc(4) ne
      by (simp_all add: extractInt_v0_def f(2,3) m_def d_def parseInt10_digits digits_sub)
    have "radixValue 10 (drop 2 rest) < 10 ^ length (drop 2 rest)"
      using abc(4) by (intro radixValue_less) (simp add: digits_sub)
    then have d: "0 \<le> d" "d \<le> 99" using lr by (simp_all add: d_def)
    from negative_year_fails [OF y d, of m] obtain e
      where "(case tripletToDaysValue_v0 (I y) (I m) (I d) of
                Inl e \<Rightarrow> Inl e | Inr v \<Rightarrow> new_CalendarDate v) = Inl e" by blast
    then have "fromString_v0 s = Inl e"
      using len chk by (simp add: fromString_v0_def Let_def e1 e2)
    with acc show ?thesis by simp
  qed
qed

lemma fromString_ParseFormat_iff:
  "(fromString t = Inl ParseFormat) =
     (if length t = 10 \<and> charAt t 4 = str ''-'' \<and> charAt t 7 = str ''-''
      then isNaN (extractInt t 0 4) \<or> isNaN (extractInt t 5 2) \<or> isNaN (extractInt t 8 2)
      else if length t = 8
      then isNaN (extractInt t 0 4) \<or> isNaN (extractInt t 4 2) \<or> isNaN (extractInt t 6 2)
      else True)"
  unfolding fromString_def Let_def using no_parse_error by (auto split: if_splits)

lemma round64_7_5: "round64 (7 / 5) = 3152519739159347 / 2251799813685248"
  by code_simp

lemma decimal_year_string:
  "extractInt (str ''1.40-01-01'') 0 4 = Fin (3152519739159347 / 2251799813685248)"
  "\<not> isInteger (extractInt (str ''1.40-01-01'') 0 4)"
  "fromString (str ''1.40-01-01'') = Inr (CalendarDate 512)"
proof -
  show y: "extractInt (str ''1.40-01-01'') 0 4 = Fin (3152519739159347 / 2251799813685248)"
    by (simp add: parse_simps round64_7_5)
  have md: "extractInt (str ''1.40-01-01'') 5 2 = I 1" "extractInt (str ''1.40-01-01'') 8 2 = I 1"
    by (simp_all add: parse_simps)
  have ni: "\<not> isInteger (Fin (3152519739159347 / 2251799813685248))" by code_simp
  show "\<not> isInteger (extractInt (str ''1.40-01-01'') 0 4)" unfolding y by (rule ni)
  have t: "tripletToDaysValue (Fin (3152519739159347 / 2251799813685248)) (I 1) (I 1)
             = Inr (I 512)"
    by code_simp
  have n: "new_CalendarDate (I 512) = Inr (CalendarDate 512)" by (simp add: new_CalendarDate_I)
  show "fromString (str ''1.40-01-01'') = Inr (CalendarDate 512)"
    unfolding fromString_def Let_def y md by (simp add: t n str_simps charAt_def)
qed

lemma date_0001_05_27: "create (I 1) (I 5) (I 27) = Inr (CalendarDate 512)"
  by (simp add: create_I valid_triple_def month_length_def leap_def ordinalOf_def jan1_def
      cumulativeDaysBeforeMonth_def)

lemma test_strings:
  "fromString (str ''hello'') = Inl ParseFormat"
  "fromString (str ''2016,01,01'') = Inl ParseFormat"
  "fromString (str ''05/05/05'') = Inl ParseFormat"
  "fromString (str ''2016-o1-o1'') = Inl ParseFormat"
proof -
  note g = fromString_ParseFormat_iff
  show "fromString (str ''hello'') = Inl ParseFormat"
    unfolding g by (simp add: str_simps)
  show "fromString (str ''2016,01,01'') = Inl ParseFormat"
    unfolding g by (simp add: str_simps charAt_def)
  have "extractInt (str ''05/05/05'') 0 4 = NaN" by (simp add: parse_simps)
  then show "fromString (str ''05/05/05'') = Inl ParseFormat"
    unfolding g by (simp add: str_simps)
  have "extractInt (str ''2016-o1-o1'') 5 2 = NaN" by (simp add: parse_simps)
  then show "fromString (str ''2016-o1-o1'') = Inl ParseFormat"
    unfolding g by (simp add: str_simps charAt_def)
qed

section \<open>The claims\<close>

text \<open>
  C1. The encoding between the ordinal value and (year, month, day) triples is a bijection
  over the valid range. For every integer \<open>v\<close> in [366, 3652424], the year, month and day
  accessors of a CalendarDate with value \<open>v\<close> yield a valid triple (month in 1..12, day in
  1..daysInMonth(year, month)), and re-encoding that triple with \<open>tripletToDaysValue\<close> and
  with \<open>create\<close> yields \<open>v\<close> again. Conversely every valid triple with a year in 1..9999
  encodes to a value in range whose accessors return the triple.
\<close>

theorem decode_encode:
  assumes "366 \<le> v" "v \<le> 3652424"
  shows "(\<exists>m d. month (CalendarDate v) = I m \<and> day (CalendarDate v) = Inr (I d)
           \<and> 1 \<le> m \<and> m \<le> 12 \<and> 1 \<le> d
           \<and> num_le (I d) (daysInMonth (I (year (CalendarDate v))) (I m))
           \<and> tripletToDaysValue (I (year (CalendarDate v))) (I m) (I d) = Inr (I v)
           \<and> create (I (year (CalendarDate v))) (I m) (I d) = Inr (CalendarDate v))
       \<and> (\<forall>y m d. 1 \<le> y \<and> y \<le> 9999 \<and> 1 \<le> m \<and> m \<le> 12 \<and> 1 \<le> d
              \<and> num_le (I d) (daysInMonth (I y) (I m)) \<longrightarrow>
            (\<exists>w. create (I y) (I m) (I d) = Inr (CalendarDate w) \<and> 366 \<le> w \<and> w \<le> 3652424
               \<and> year (CalendarDate w) = y \<and> month (CalendarDate w) = I m
               \<and> day (CalendarDate w) = Inr (I d)))"
proof
  from triple_exists [OF assms(1,2)] obtain y m d
    where y: "1 \<le> y" "y \<le> 9999" "valid_triple y m d" "ordinalOf y m d = v" by blast
  from y(3) have m: "1 \<le> m" "m \<le> 12" and d: "1 \<le> d" "d \<le> month_length y m"
    by (simp_all add: valid_triple_def)
  have yr: "year (CalendarDate v) = y" using year_ordinalOf [OF y(1-3)] by (simp add: y(4))
  have mo: "month (CalendarDate v) = I m" using month_ordinalOf [OF y(1-3)] by (simp add: y(4))
  have da: "day (CalendarDate v) = Inr (I d)" using day_ordinalOf [OF y(1-3)] by (simp add: y(4))
  have dim: "num_le (I d) (daysInMonth (I y) (I m))" using m d by (simp add: daysInMonth_I)
  have t: "tripletToDaysValue (I y) (I m) (I d) = Inr (I v)"
    using y(1,2) m d by (simp add: tripletToDaysValue_I y(4))
  have c: "create (I y) (I m) (I d) = Inr (CalendarDate v)"
    using assms by (simp add: create_def t new_CalendarDate_I)
  show "\<exists>m d. month (CalendarDate v) = I m \<and> day (CalendarDate v) = Inr (I d)
           \<and> 1 \<le> m \<and> m \<le> 12 \<and> 1 \<le> d
           \<and> num_le (I d) (daysInMonth (I (year (CalendarDate v))) (I m))
           \<and> tripletToDaysValue (I (year (CalendarDate v))) (I m) (I d) = Inr (I v)
           \<and> create (I (year (CalendarDate v))) (I m) (I d) = Inr (CalendarDate v)"
    unfolding yr using mo da m d(1) dim t c by blast
next
  show "\<forall>y m d. 1 \<le> y \<and> y \<le> 9999 \<and> 1 \<le> m \<and> m \<le> 12 \<and> 1 \<le> d
              \<and> num_le (I d) (daysInMonth (I y) (I m)) \<longrightarrow>
            (\<exists>w. create (I y) (I m) (I d) = Inr (CalendarDate w) \<and> 366 \<le> w \<and> w \<le> 3652424
               \<and> year (CalendarDate w) = y \<and> month (CalendarDate w) = I m
               \<and> day (CalendarDate w) = Inr (I d))"
  proof (intro allI impI, elim conjE)
    fix y m d :: int
    assume y: "1 \<le> y" "y \<le> 9999" and m: "1 \<le> m" "m \<le> 12" and d: "1 \<le> d"
      and dim: "num_le (I d) (daysInMonth (I y) (I m))"
    have vt: "valid_triple y m d"
      using m d dim by (simp add: valid_triple_def daysInMonth_I)
    show "\<exists>w. create (I y) (I m) (I d) = Inr (CalendarDate w) \<and> 366 \<le> w \<and> w \<le> 3652424
               \<and> year (CalendarDate w) = y \<and> month (CalendarDate w) = I m
               \<and> day (CalendarDate w) = Inr (I d)"
      using create_valid [OF y vt] ordinal_range [OF y vt] year_ordinalOf [OF y vt]
        month_ordinalOf [OF y vt] day_ordinalOf [OF y vt]
      by blast
  qed
qed

theorem decode_encode_witness:
  "(366::int) \<le> 730544 \<and> (730544::int) \<le> 3652424
     \<and> year (CalendarDate 730544) = 2000 \<and> month (CalendarDate 730544) = I 2
     \<and> day (CalendarDate 730544) = Inr (I 29)
     \<and> num_le (I 29) (daysInMonth (I 2000) (I 2))
     \<and> create (I 2000) (I 2) (I 29) = Inr (CalendarDate 730544)
     \<and> (\<exists>w. create (I 2001) (I 3) (I 1) = Inr (CalendarDate w) \<and> 366 \<le> w \<and> w \<le> 3652424
           \<and> year (CalendarDate w) = 2001 \<and> month (CalendarDate w) = I 3
           \<and> day (CalendarDate w) = Inr (I 1))"
proof -
  have v: "valid_triple 2000 2 29" "ordinalOf 2000 2 29 = 730544"
    by (simp_all add: valid_triple_def month_length_def leap_def ordinalOf_def jan1_def
        cumulativeDaysBeforeMonth_def)
  have yr: "year (CalendarDate 730544) = 2000"
    using year_ordinalOf [of 2000 2 29] v by simp
  have mo: "month (CalendarDate 730544) = I 2"
    using month_ordinalOf [of 2000 2 29] v by simp
  have da: "day (CalendarDate 730544) = Inr (I 29)"
    using day_ordinalOf [of 2000 2 29] v by simp
  have dm: "num_le (I 1) (daysInMonth (I 2001) (I 3))"
    by (simp add: daysInMonth_I month_length_def)
  note th = decode_encode [of 730544]
  from th obtain m d
    where "month (CalendarDate 730544) = I m" "day (CalendarDate 730544) = Inr (I d)"
      "num_le (I d) (daysInMonth (I (year (CalendarDate 730544))) (I m))"
      "create (I (year (CalendarDate 730544))) (I m) (I d) = Inr (CalendarDate 730544)"
    by auto
  then have a: "num_le (I 29) (daysInMonth (I 2000) (I 2))
      \<and> create (I 2000) (I 2) (I 29) = Inr (CalendarDate 730544)"
    by (simp add: yr mo da)
  have "\<exists>w. create (I 2001) (I 3) (I 1) = Inr (CalendarDate w) \<and> 366 \<le> w \<and> w \<le> 3652424
           \<and> year (CalendarDate w) = 2001 \<and> month (CalendarDate w) = I 3
           \<and> day (CalendarDate w) = Inr (I 1)"
    using th dm by simp
  with a yr mo da show ?thesis by simp
qed

text \<open>
  C2. For every ordinal value \<open>v\<close> in [366, 3652424] the closed-form year extraction
  \<open>centuries = floor(v / 36525); year = floor((v + centuries - floor(centuries / 4)) / 365.25)\<close>,
  computed in double precision, returns exactly the calendar year of \<open>v\<close>: it lies in 1..9999,
  it equals the same formula in exact arithmetic, and it is \<open>y\<close> exactly when \<open>v\<close> lies between
  the ordinals of January 1 and of December 31 of year \<open>y\<close>.
\<close>

theorem year_exact:
  assumes "366 \<le> v" "v \<le> 3652424" "1 \<le> y" "y \<le> 9999"
  shows "1 \<le> year (CalendarDate v) \<and> year (CalendarDate v) \<le> 9999
    \<and> year (CalendarDate v)
        = \<lfloor>(of_int (v + v div 36525 - v div 36525 div 4) :: rat) / (36525 / 100)\<rfloor>
    \<and> (year (CalendarDate v) = y \<longleftrightarrow>
         (\<exists>lo hi. tripletToDaysValue (I y) (I 1) (I 1) = Inr (I lo)
                \<and> tripletToDaysValue (I y) (I 12) (I 31) = Inr (I hi)
                \<and> lo \<le> v \<and> v \<le> hi))"
proof -
  from triple_exists [OF assms(1,2)] obtain Y m d
    where Y: "1 \<le> Y" "Y \<le> 9999" "valid_triple Y m d" "ordinalOf Y m d = v" by blast
  have yr: "year (CalendarDate v) = Y" using year_ordinalOf [OF Y(1-3)] by (simp add: Y(4))
  have cf: "year (CalendarDate v) = (4 * (v + v div 36525 - v div 36525 div 4)) div 1461"
    using assms(1,2) by (intro year_closed_form) simp_all
  have "(\<exists>lo hi. tripletToDaysValue (I y) (I 1) (I 1) = Inr (I lo)
                \<and> tripletToDaysValue (I y) (I 12) (I 31) = Inr (I hi)
                \<and> lo \<le> v \<and> v \<le> hi) \<longleftrightarrow> jan1 y \<le> v \<and> v < jan1 (y + 1)"
    by (auto simp: year_boundaries [OF assms(3,4)])
  also have "\<dots> \<longleftrightarrow> year (CalendarDate v) = y"
  proof
    assume "jan1 y \<le> v \<and> v < jan1 (y + 1)"
    then show "year (CalendarDate v) = y"
      unfolding cf using assms(3,4) by (intro year_of_ordinal) simp_all
  next
    assume "year (CalendarDate v) = y"
    then have "Y = y" by (simp add: yr)
    then show "jan1 y \<le> v \<and> v < jan1 (y + 1)"
      using ordinal_in_year [OF Y(3)] unfolding Y(4) by simp
  qed
  finally have iff: "(\<exists>lo hi. tripletToDaysValue (I y) (I 1) (I 1) = Inr (I lo)
                \<and> tripletToDaysValue (I y) (I 12) (I 31) = Inr (I hi)
                \<and> lo \<le> v \<and> v \<le> hi) \<longleftrightarrow> year (CalendarDate v) = y" .
  have fl: "year (CalendarDate v)
        = \<lfloor>(of_int (v + v div 36525 - v div 36525 div 4) :: rat) / (36525 / 100)\<rfloor>"
    unfolding cf by (rule floor_div_365_25 [symmetric])
  have rng: "1 \<le> year (CalendarDate v)" "year (CalendarDate v) \<le> 9999"
    using Y(1,2) by (simp_all add: yr)
  show ?thesis using rng fl iff by blast
qed

theorem year_exact_witness:
  "(366::int) \<le> 730485 \<and> (730485::int) \<le> 3652424 \<and> (1::int) \<le> 2000 \<and> (2000::int) \<le> 9999
     \<and> tripletToDaysValue (I 2000) (I 1) (I 1) = Inr (I 730485)
     \<and> tripletToDaysValue (I 2000) (I 12) (I 31) = Inr (I 730850)
     \<and> year (CalendarDate 730485) = 2000"
proof -
  have a: "tripletToDaysValue (I 2000) (I 1) (I 1) = Inr (I 730485)"
    and b: "tripletToDaysValue (I 2000) (I 12) (I 31) = Inr (I 730850)"
    by (simp_all add: tripletToDaysValue_I month_length_def ordinalOf_def
        cumulativeDaysBeforeMonth_def jan1_def leap_def)
  have "year (CalendarDate 730485) = 2000"
    using year_exact [of 730485 2000] a b by auto
  with a b show ?thesis by simp
qed

text \<open>
  C3. addMonths(n), for every valid CalendarDate (year \<open>y\<close>, month \<open>m\<close>, day \<open>d\<close>) and every
  integer \<open>n\<close> such that the resulting year is in 1..9999: with the flat month index
  \<open>idx = y * 12 + (m - 1) + n\<close>, the result has year \<open>idx div 12\<close>, month \<open>idx mod 12 + 1\<close>
  (floor division and modulo) and day \<open>min d (daysInMonth newYear newMonth)\<close>. The witness
  holds the examples 2000-12-31 plus 2 months = 2001-02-28 and plus 4 months = 2001-04-30.
\<close>

theorem addMonths_policy:
  assumes "366 \<le> v" "v \<le> 3652424"
    and "year (CalendarDate v) = y" "month (CalendarDate v) = I m" "day (CalendarDate v) = Inr (I d)"
    and "1 \<le> (y * 12 + (m - 1) + n) div 12" "(y * 12 + (m - 1) + n) div 12 \<le> 9999"
  defines "idx \<equiv> y * 12 + (m - 1) + n"
  shows "\<exists>r dim. addMonths (CalendarDate v) (I n) = Inr r
           \<and> year r = idx div 12 \<and> month r = I (idx mod 12 + 1)
           \<and> daysInMonth (I (idx div 12)) (I (idx mod 12 + 1)) = I dim
           \<and> day r = Inr (I (min d dim))"
proof -
  note t = accessors_triple [OF assms(1-5)]
  from t(3) have m: "1 \<le> m" "m \<le> 12" and d: "1 \<le> d" "d \<le> month_length y m"
    by (simp_all add: valid_triple_def)
  have Y: "1 \<le> idx div 12" "idx div 12 \<le> 9999" using assms(6,7) by (simp_all add: idx_def)
  then have i: "0 \<le> idx" "idx \<le> 12000000" by linarith+
  define dim where "dim = month_length (idx div 12) (idx mod 12 + 1)"
  have dim: "28 \<le> dim" by (simp add: dim_def month_length_def)
  have a: "addMonths (CalendarDate v) (I n) =
      create (I (idx div 12)) (I (idx mod 12 + 1)) (I (min d dim))"
    using addMonths_I [OF t(1-3), of n] i by (simp add: idx_def t(4) dim_def)
  have nm0: "0 \<le> idx mod 12" "idx mod 12 < 12" by simp_all
  have vt: "valid_triple (idx div 12) (idx mod 12 + 1) (min d dim)"
    using nm0 d dim by (simp add: valid_triple_def dim_def [symmetric])
  have md: "daysInMonth (I (idx div 12)) (I (idx mod 12 + 1)) = I dim"
    using nm0 by (simp add: daysInMonth_I dim_def)
  have "addMonths (CalendarDate v) (I n)
      = Inr (CalendarDate (ordinalOf (idx div 12) (idx mod 12 + 1) (min d dim)))"
    using create_valid [OF Y vt] by (simp add: a)
  then show ?thesis
    using year_ordinalOf [OF Y vt] month_ordinalOf [OF Y vt] day_ordinalOf [OF Y vt] md
    by auto
qed

theorem addMonths_policy_witness:
  "create (I 2000) (I 12) (I 31) = Inr (CalendarDate 730850)
   \<and> (\<exists>r. addMonths (CalendarDate 730850) (I 2) = Inr r \<and> year r = 2001
            \<and> month r = I 2 \<and> day r = Inr (I 28))
   \<and> (\<exists>r. addMonths (CalendarDate 730850) (I 4) = Inr r \<and> year r = 2001
            \<and> month r = I 4 \<and> day r = Inr (I 30))
   \<and> (\<exists>r. addMonths (CalendarDate 730850) (I (- 25)) = Inr r \<and> year r = 1998
            \<and> month r = I 11 \<and> day r = Inr (I 30))"
proof -
  have dm: "daysInMonth (I 2001) (I 2) = I 28" "daysInMonth (I 2001) (I 4) = I 30"
    "daysInMonth (I 1998) (I 11) = I 30"
    by (simp_all add: daysInMonth_I month_length_def leap_def)
  show ?thesis
    using addMonths_policy [of 730850 2000 12 31 2] addMonths_policy [of 730850 2000 12 31 4]
      addMonths_policy [of 730850 2000 12 31 "- 25"] date_2000_12_31 dm
    by auto
qed

text \<open>
  C4. addYears(n), for every valid CalendarDate (year \<open>y\<close>, month \<open>m\<close>, day \<open>d\<close>) and every
  integer \<open>n\<close> with \<open>y + n\<close> in 1..9999, returns the date with year \<open>y + n\<close> and month and day
  unchanged, except that February 29 becomes March 1 when \<open>y + n\<close> is not a leap year. The
  witness is the pair of examples 2000-02-29 plus 1 year = 2001-03-01 and plus 4 years =
  2004-02-29.
\<close>

theorem addYears_policy:
  assumes "366 \<le> v" "v \<le> 3652424"
    and "year (CalendarDate v) = y" "month (CalendarDate v) = I m" "day (CalendarDate v) = Inr (I d)"
    and "1 \<le> y + n" "y + n \<le> 9999"
  shows "\<exists>r. addYears (CalendarDate v) (I n) = Inr r \<and> year r = y + n
           \<and> (if m = 2 \<and> d = 29 \<and> \<not> isLeapYear (I (y + n))
               then month r = I 3 \<and> day r = Inr (I 1)
               else month r = I m \<and> day r = Inr (I d))"
proof -
  note t = accessors_triple [OF assms(1-5)]
  from t(3) have m: "1 \<le> m" "m \<le> 12" and d: "1 \<le> d" "d \<le> month_length y m"
    by (simp_all add: valid_triple_def)
  have a: "addYears (CalendarDate v) (I n) =
           (if m = 2 \<and> d = 29 \<and> \<not> leap (y + n) then create (I (y + n)) (I 3) (I 1)
            else create (I (y + n)) (I m) (I d))"
    using addYears_I [OF t(1-3), of n] assms(6,7) by (simp add: t(4))
  show ?thesis
  proof (cases "m = 2 \<and> d = 29 \<and> \<not> leap (y + n)")
    case True
    have v: "valid_triple (y + n) 3 1" by (simp add: valid_triple_def month_length_def)
    have "addYears (CalendarDate v) (I n) = Inr (CalendarDate (ordinalOf (y + n) 3 1))"
      using True create_valid [OF assms(6,7) v] by (simp add: a)
    moreover have "m = 2 \<and> d = 29 \<and> \<not> isLeapYear (I (y + n))"
      using True by (simp add: isLeapYear_I)
    ultimately show ?thesis
      using year_ordinalOf [OF assms(6,7) v]
        month_ordinalOf [OF assms(6,7) v] day_ordinalOf [OF assms(6,7) v]
      by auto
  next
    case False
    have "d \<le> month_length (y + n) m"
      using False d by (auto simp: month_length_def split: if_splits)
    then have v: "valid_triple (y + n) m d" using m d by (simp add: valid_triple_def)
    have "addYears (CalendarDate v) (I n) = Inr (CalendarDate (ordinalOf (y + n) m d))"
      using False create_valid [OF assms(6,7) v] by (auto simp add: a)
    moreover have "\<not> (m = 2 \<and> d = 29 \<and> \<not> isLeapYear (I (y + n)))"
      using False by (simp add: isLeapYear_I)
    ultimately show ?thesis
      using year_ordinalOf [OF assms(6,7) v]
        month_ordinalOf [OF assms(6,7) v] day_ordinalOf [OF assms(6,7) v]
      by auto
  qed
qed

theorem addYears_policy_witness:
  "create (I 2000) (I 2) (I 29) = Inr (CalendarDate 730544)
   \<and> (\<exists>r. addYears (CalendarDate 730544) (I 1) = Inr r \<and> year r = 2001
            \<and> month r = I 3 \<and> day r = Inr (I 1))
   \<and> (\<exists>r. addYears (CalendarDate 730544) (I 4) = Inr r \<and> year r = 2004
            \<and> month r = I 2 \<and> day r = Inr (I 29))"
proof -
  have l1: "\<not> isLeapYear (I (2000 + 1))" and l4: "isLeapYear (I (2000 + 4))"
    by (simp_all add: isLeapYear_I leap_def)
  show ?thesis
    using addYears_policy [of 730544 2000 2 29 1] addYears_policy [of 730544 2000 2 29 4]
      date_2000_02_29 l1 l4
    by simp
qed

text \<open>
  C5. addDays(n), for every CalendarDate and every integer \<open>n\<close>, returns the date with
  ordinal value + n when value + n lies in [366, 3652424], and otherwise fails with the
  out-of-range error of the constructor (it is the constructor applied to value + n): the
  result is never clamped to a boundary. The date is a value, so the original is unchanged.
\<close>

theorem addDays_range:
  "addDays (CalendarDate v) (I n) =
     (if 366 \<le> v + n \<and> v + n \<le> 3652424 then Inr (CalendarDate (v + n))
      else Inl ValueOutOfRange)
   \<and> addDays (CalendarDate v) (I n) = new_CalendarDate (I (v + n))"
  by (auto simp add: addDays_I new_CalendarDate_I)

theorem addDays_range_witness:
  "addDays (CalendarDate 738155) (I 1460) = Inr (CalendarDate 739615)
   \<and> addDays (CalendarDate 3652424) (I 1) = Inl ValueOutOfRange
   \<and> addDays (CalendarDate 366) (I (- 1)) = Inl ValueOutOfRange
   \<and> new_CalendarDate (I 3652425) = Inl ValueOutOfRange"
  using addDays_range [of 738155 1460] addDays_range [of 3652424 1] addDays_range [of 366 "- 1"]
  by auto

text \<open>
  C6. For every valid CalendarDate, toString produces exactly the 10-character form
  \<open>YYYY-MM-DD\<close>, the year zero-padded to 4 digits and month and day to 2 digits, and toString
  is the exact inverse of fromString: \<open>fromString(d.toString())\<close> equals \<open>d\<close> for every
  representable date, and \<open>toString(fromString(s)) = s\<close> for every string \<open>s\<close> in the canonical
  format that fromString accepts.
\<close>

theorem toString_fromString:
  assumes "366 \<le> v" "v \<le> 3652424"
  shows "(\<exists>y m d. year (CalendarDate v) = y \<and> month (CalendarDate v) = I m
            \<and> day (CalendarDate v) = Inr (I d)
            \<and> toString (CalendarDate v) = Inr (iso_format y m d)
            \<and> length (iso_format y m d) = 10 \<and> canonical_format (iso_format y m d)
            \<and> fromString (iso_format y m d) = Inr (CalendarDate v))
       \<and> (\<forall>s dt. canonical_format s \<and> fromString s = Inr dt \<longrightarrow> toString dt = Inr s)"
proof
  from triple_exists [OF assms] obtain y m d
    where y: "1 \<le> y" "y \<le> 9999" "valid_triple y m d" "ordinalOf y m d = v" by blast
  from y(3) have m: "1 \<le> m" "m \<le> 12" and d: "1 \<le> d" "d \<le> month_length y m"
    by (simp_all add: valid_triple_def)
  have d31: "d \<le> 31" using d by (simp add: month_length_def split: if_splits)
  note Y = zero_pad_props [of y 4] and M = zero_pad_props [of m 2] and D = zero_pad_props [of d 2]
  have Yp: "list_all isDigit (zero_pad 4 y)" "length (zero_pad 4 y) = 4"
    "int (radixValue 10 (zero_pad 4 y)) = y" using y(1,2) Y by simp_all
  have Mp: "list_all isDigit (zero_pad 2 m)" "length (zero_pad 2 m) = 2"
    "int (radixValue 10 (zero_pad 2 m)) = m" using m M by simp_all
  have Dp: "list_all isDigit (zero_pad 2 d)" "length (zero_pad 2 d) = 2"
    "int (radixValue 10 (zero_pad 2 d)) = d" using d d31 D by simp_all
  have f: "fromString (iso_format y m d) = create (I y) (I m) (I d)"
    unfolding iso_format_def
    using fromString_fields [OF Yp(1,2) Mp(1,2) Dp(1,2)] by (simp only: Yp Mp Dp)
  have len: "length (iso_format y m d) = 10"
    by (simp add: iso_format_def Yp Mp Dp str_simps)
  have can: "canonical_format (iso_format y m d)"
    using Yp Mp Dp
    by (simp add: canonical_format_def iso_format_def substring_def charAt_def str_simps nth_append)
  have "toString (CalendarDate v) = Inr (iso_format y m d)"
    using toString_ordinalOf [OF y(1-3)] by (simp add: y(4))
  moreover have "fromString (iso_format y m d) = Inr (CalendarDate v)"
    using create_valid [OF y(1-3)] by (simp add: f y(4))
  moreover have "year (CalendarDate v) = y" "month (CalendarDate v) = I m"
    "day (CalendarDate v) = Inr (I d)"
    using year_ordinalOf [OF y(1-3)] month_ordinalOf [OF y(1-3)] day_ordinalOf [OF y(1-3)]
    by (simp_all add: y(4))
  ultimately show "\<exists>y m d. year (CalendarDate v) = y \<and> month (CalendarDate v) = I m
            \<and> day (CalendarDate v) = Inr (I d)
            \<and> toString (CalendarDate v) = Inr (iso_format y m d)
            \<and> length (iso_format y m d) = 10 \<and> canonical_format (iso_format y m d)
            \<and> fromString (iso_format y m d) = Inr (CalendarDate v)"
    using len can by blast
next
  show "\<forall>s dt. canonical_format s \<and> fromString s = Inr dt \<longrightarrow> toString dt = Inr s"
  proof (intro allI impI, elim conjE)
    fix s dt
    assume can: "canonical_format s" and fs: "fromString s = Inr dt"
    from canonical_split [OF can] obtain Y M D
      where s: "s = Y @ str ''-'' @ M @ str ''-'' @ D"
        and Y: "list_all isDigit Y" "length Y = 4" and M: "list_all isDigit M" "length M = 2"
        and D: "list_all isDigit D" "length D = 2" by blast
    define y m d where "y = int (radixValue 10 Y)" and "m = int (radixValue 10 M)"
      and "d = int (radixValue 10 D)"
    have c: "create (I y) (I m) (I d) = Inr dt"
      using fromString_fields [OF Y M D] fs by (simp add: s y_def m_def d_def)
    have "radixValue 10 Y < 10 ^ length Y" using Y(1) by (rule radixValue_less)
    then have yb: "0 \<le> y" "y \<le> 9999" by (simp_all add: y_def Y(2))
    note r = create_Inr [OF yb c]
    have ne: "Y \<noteq> []" "M \<noteq> []" "D \<noteq> []" using Y M D by auto
    have "zero_pad 4 y = Y"
      using pad_radixValue [OF Y(1) ne(1)] by (simp add: zero_pad_def padStart_zero y_def Y(2))
    moreover have "zero_pad 2 m = M"
      using pad_radixValue [OF M(1) ne(2)] by (simp add: zero_pad_def padStart_zero m_def M(2))
    moreover have "zero_pad 2 d = D"
      using pad_radixValue [OF D(1) ne(3)] by (simp add: zero_pad_def padStart_zero d_def D(2))
    ultimately have "iso_format y m d = s" by (simp add: iso_format_def s)
    then show "toString dt = Inr s"
      using toString_ordinalOf [OF r(1) yb(2) r(2)] by (simp add: r(3))
  qed
qed

theorem toString_fromString_witness:
  "(366::int) \<le> 736329 \<and> (736329::int) \<le> 3652424
     \<and> canonical_format (str ''2016-01-01'')
     \<and> fromString (str ''2016-01-01'') = Inr (CalendarDate 736329)
     \<and> toString (CalendarDate 736329) = Inr (str ''2016-01-01'')"
proof -
  have a: "canonical_format (str ''2016-01-01'')"
    by (simp add: canonical_format_def str_simps substring_def charAt_def isDigit_def)
  have "str ''2016-01-01'' = str ''2016'' @ str ''-'' @ str ''01'' @ str ''-'' @ str ''01''"
    by (simp add: str_simps)
  then have "fromString (str ''2016-01-01'') = create (I 2016) (I 1) (I 1)"
    using fromString_fields [of "str ''2016''" "str ''01''" "str ''01''"]
    by (simp add: str_simps isDigit_def radixValue_def digitValue_def)
  then have b: "fromString (str ''2016-01-01'') = Inr (CalendarDate 736329)"
    by (simp add: date_2016_01_01)
  have "toString (CalendarDate 736329) = Inr (str ''2016-01-01'')"
    using toString_fromString [of 736329] a b by simp
  with a b show ?thesis by simp
qed

text \<open>
  C7 fails on the code. fromString raises the parse-format error on the four strings of the
  repository's test, \<open>hello\<close>, \<open>2016,01,01\<close>, \<open>05/05/05\<close> and \<open>2016-o1-o1\<close>, but it
  reads every field with \<open>Number()\<close> and tests the result only for NaN, so it also
  constructs dates from strings of neither shape of the claim: \<open>2016+1+1\<close>, of length 8
  and not all digits, gives 1 January 2016 (ordinal 736329), and \<open>1.40-01-01\<close>, whose year
  field converts to a number that is no integer, gives 27 May of the year 1 (ordinal 512).
\<close>

theorem fromString_non_date_strings:
  "fromString (str ''hello'') = Inl ParseFormat
   \<and> fromString (str ''2016,01,01'') = Inl ParseFormat
   \<and> fromString (str ''05/05/05'') = Inl ParseFormat
   \<and> fromString (str ''2016-o1-o1'') = Inl ParseFormat
   \<and> length (str ''2016+1+1'') = 8 \<and> \<not> list_all isDigit (str ''2016+1+1'')
   \<and> fromString (str ''2016+1+1'') = Inr (CalendarDate 736329)
   \<and> create (I 2016) (I 1) (I 1) = Inr (CalendarDate 736329)
   \<and> \<not> isInteger (extractInt (str ''1.40-01-01'') 0 4)
   \<and> fromString (str ''1.40-01-01'') = Inr (CalendarDate 512)
   \<and> create (I 1) (I 5) (I 27) = Inr (CalendarDate 512)"
  using test_strings plus_string decimal_year_string(2,3) date_2016_01_01 date_0001_05_27
  by simp

text \<open>
  C8, as stated, fails: on \<open>2016+1+1\<close>, of length 8, the variant of CalendarDate.ts
  constructs 2016-01-01 and the variant of the second file raises the parse-format error.
\<close>

theorem fromString_variants_counterexample:
  "length (str ''2016+1+1'') = 8
     \<and> fromString (str ''2016+1+1'') = Inr (CalendarDate 736329)
     \<and> fromString_v0 (str ''2016+1+1'') = Inl ParseFormat"
  using plus_string plus_string_v0 by simp

text \<open>
  C8, amended. For every string of length 8: if it consists of eight decimal digits, the two
  variants of fromString give the same result (the same date or the same error); and whenever
  the variant of the second file constructs a date, the variant of CalendarDate.ts constructs
  the same date. (Not conversely: see the counterexample.)
\<close>

theorem fromString_variants:
  assumes "length s = 8"
  shows "(list_all isDigit s \<longrightarrow> fromString_v0 s = fromString s)
       \<and> (\<forall>dt. fromString_v0 s = Inr dt \<longrightarrow> fromString s = Inr dt)"
proof (intro conjI impI allI)
  assume "list_all isDigit s"
  then show "fromString_v0 s = fromString s"
    using fromString_digits8(1,2) [OF _ assms] by simp
next
  fix dt
  assume acc: "fromString_v0 s = Inr dt"
  then have "list_all isDigit s" using assms by (intro fromString_v0_accepts)
  then have "fromString_v0 s = fromString s"
    using fromString_digits8(1,2) [OF _ assms] by simp
  with acc show "fromString s = Inr dt" by simp
qed

theorem fromString_variants_witness:
  "length (str ''20160101'') = 8 \<and> list_all isDigit (str ''20160101'')
     \<and> fromString_v0 (str ''20160101'') = Inr (CalendarDate 736329)
     \<and> fromString (str ''20160101'') = Inr (CalendarDate 736329)"
proof -
  have l: "length (str ''20160101'') = 8" "list_all isDigit (str ''20160101'')"
    by (simp_all add: str_simps isDigit_def)
  have "fromString_v0 (str ''20160101'') = create (I 2016) (I 1) (I 1)"
    using fromString_digits8(2) [OF l(2,1)] by (simp add: str_simps radixValue_def digitValue_def)
  then have v0: "fromString_v0 (str ''20160101'') = Inr (CalendarDate 736329)"
    by (simp add: date_2016_01_01)
  then have "fromString (str ''20160101'') = Inr (CalendarDate 736329)"
    using fromString_variants [OF l(1)] by blast
  with v0 l show ?thesis by simp
qed

text \<open>
  C9. For every valid CalendarDate, toEpochMs returns (value - 719528) * 86400000 and
  toEpochSeconds returns (value - 719528) * 86400; 719528 is the ordinal of 1970-01-01, which
  maps to epoch 0, 1970-01-02 maps to 86400000 ms and 1969-12-31 to -86400000 ms.
\<close>

theorem epoch_conversion:
  assumes "366 \<le> v" "v \<le> 3652424"
  shows "toEpochMs (CalendarDate v) = I ((v - 719528) * 86400000)
     \<and> toEpochSeconds (CalendarDate v) = I ((v - 719528) * 86400)
     \<and> create (I 1970) (I 1) (I 1) = Inr (CalendarDate 719528)
     \<and> toEpochMs (CalendarDate 719528) = I 0
     \<and> create (I 1970) (I 1) (I 2) = Inr (CalendarDate 719529)
     \<and> toEpochMs (CalendarDate 719529) = I 86400000
     \<and> create (I 1969) (I 12) (I 31) = Inr (CalendarDate 719527)
     \<and> toEpochMs (CalendarDate 719527) = I (- 86400000)"
proof -
  have g: "toEpochMs (CalendarDate w) = I ((w - 719528) * 86400000)"
       "toEpochSeconds (CalendarDate w) = I ((w - 719528) * 86400)"
    if "366 \<le> w" "w \<le> 3652424" for w
  proof -
    have b: "- 719162 \<le> w - 719528" "w - 719528 \<le> 2932896" using that by simp_all
    then have "\<bar>(w - 719528) * 86400000\<bar> \<le> 2932896 * 86400000"
      unfolding abs_mult by (intro mult_mono) simp_all
    then show "toEpochMs (CalendarDate w) = I ((w - 719528) * 86400000)"
      using that by (simp add: toEpochMs_def num_sub_I num_mul_I)
    from b have "\<bar>(w - 719528) * 86400\<bar> \<le> 2932896 * 86400"
      unfolding abs_mult by (intro mult_mono) simp_all
    then show "toEpochSeconds (CalendarDate w) = I ((w - 719528) * 86400)"
      using that by (simp add: toEpochSeconds_def num_sub_I num_mul_I)
  qed
  have c: "create (I 1970) (I 1) (I 1) = Inr (CalendarDate 719528)"
    "create (I 1970) (I 1) (I 2) = Inr (CalendarDate 719529)"
    "create (I 1969) (I 12) (I 31) = Inr (CalendarDate 719527)"
    by (simp_all add: create_I month_length_def ordinalOf_def jan1_def leap_def
        cumulativeDaysBeforeMonth_def)
  show ?thesis
    using g [OF assms] g(1) [of 719528] g(1) [of 719529] g(1) [of 719527] c by simp
qed

theorem epoch_conversion_witness:
  "(366::int) \<le> 730485 \<and> (730485::int) \<le> 3652424
     \<and> toEpochMs (CalendarDate 730485) = I 946684800000
     \<and> toEpochSeconds (CalendarDate 730485) = I 946684800"
  using epoch_conversion [of 730485] by simp

text \<open>
  C10. For every ordinal value \<open>v\<close> in [366, 3652424] the day-of-year index that the month
  accessor computes, \<open>v\<close> minus the ordinal of January 1 of \<open>year(v)\<close>, lies in [0, 364] when
  the year is not a leap year and in [0, 365] when it is, so the lookup into the 365-character
  \<open>NORMAL_YEAR\<close> or the 366-character \<open>LEAP_YEAR\<close> is in bounds, and the code read there is
  64 plus a month in 1..12 (a letter A..L).
\<close>

theorem month_lookup_in_bounds:
  assumes "366 \<le> v" "v \<le> 3652424"
  defines "leapYear \<equiv> isLeapYear (I (year (CalendarDate v)))"
  shows "length NORMAL_YEAR = 365 \<and> length LEAP_YEAR = 366
    \<and> (\<exists>k m. num_sub (I v) (yearStart (I (year (CalendarDate v)))) = I k
          \<and> 0 \<le> k \<and> k \<le> (if leapYear then 365 else 364)
          \<and> k < int (length (if leapYear then LEAP_YEAR else NORMAL_YEAR))
          \<and> charCodeAt (if leapYear then LEAP_YEAR else NORMAL_YEAR) (I k) = I (64 + m)
          \<and> 1 \<le> m \<and> m \<le> 12 \<and> month (CalendarDate v) = I m)"
proof -
  from triple_exists [OF assms(1,2)] obtain y m d
    where y: "1 \<le> y" "y \<le> 9999" "valid_triple y m d" "ordinalOf y m d = v" by blast
  define k where "k = cumulativeDaysBeforeMonth m + (if leap y \<and> 2 < m then 1 else 0) + (d - 1)"
  note l = lookup_ordinalOf [OF y(1-3), folded k_def, unfolded y(4)]
  have yr: "year (CalendarDate v) = y" using year_ordinalOf [OF y(1-3)] by (simp add: y(4))
  have lp: "leapYear = leap y" by (simp add: leapYear_def yr isLeapYear_I)
  from y(3) have m: "1 \<le> m" "m \<le> 12" by (simp_all add: valid_triple_def)
  have len: "k < int (length (if leap y then LEAP_YEAR else NORMAL_YEAR))"
    using l(3) by (simp add: table_lengths split: if_splits)
  have "charCodeAt (if leap y then LEAP_YEAR else NORMAL_YEAR) (I k)
          = I (int ((if leap y then LEAP_YEAR else NORMAL_YEAR) ! nat k))"
    using l(2) len by (rule charCodeAt_I)
  also have "\<dots> = I (64 + m)" using m by (simp only: l(4)) simp
  finally have cc: "charCodeAt (if leap y then LEAP_YEAR else NORMAL_YEAR) (I k) = I (64 + m)" .
  have mo: "month (CalendarDate v) = I m" using month_ordinalOf [OF y(1-3)] by (simp add: y(4))
  show ?thesis
    unfolding lp yr using l(1-3) len cc m mo by (auto simp: table_lengths)
qed

theorem month_lookup_in_bounds_witness:
  "(366::int) \<le> 730544 \<and> (730544::int) \<le> 3652424
    \<and> isLeapYear (I (year (CalendarDate 730544)))
    \<and> (\<exists>k m. num_sub (I 730544) (yearStart (I (year (CalendarDate 730544)))) = I k
          \<and> 0 \<le> k \<and> k \<le> 365 \<and> k < int (length LEAP_YEAR)
          \<and> charCodeAt LEAP_YEAR (I k) = I (64 + m)
          \<and> 1 \<le> m \<and> m \<le> 12 \<and> month (CalendarDate 730544) = I m)"
proof -
  have v: "valid_triple 2000 2 29" "ordinalOf 2000 2 29 = 730544"
    by (simp_all add: valid_triple_def month_length_def leap_def ordinalOf_def jan1_def
        cumulativeDaysBeforeMonth_def)
  have "year (CalendarDate 730544) = 2000"
    using year_ordinalOf [of 2000 2 29] v by simp
  then have "isLeapYear (I (year (CalendarDate 730544)))"
    by (simp add: isLeapYear_I leap_def)
  then show ?thesis using month_lookup_in_bounds [of 730544] by auto
qed

end
